theory Spec2Isabelle
  imports Main "HOL-Library.Word" "HOL-Library.AList"
begin

unbundle bit_operations_syntax

section \<open>Machine integers and panics\<close>

text \<open>
  Go's fixed-width integers are words; \<open>sint\<close> reads the signed ones.  Go's \<open>int\<close> is
  taken at its width on the 64-bit platforms (amd64, arm64).  The hashers below are
  written for an arbitrary width \<open>'w\<close> of \<open>int\<close>, so that the 32-bit platforms are the
  instance \<open>'w = 32\<close>.
\<close>

type_synonym byte = "8 word"
type_synonym int8 = "8 word"
type_synonym int16 = "16 word"
type_synonym int32 = "32 word"
type_synonym int64 = "64 word"
type_synonym uint32 = "32 word"
type_synonym go_int = "64 word"

text \<open>The run-time panics of the modelled code: each one ends the call.\<close>

datatype panic = IndexOutOfRange | DivideByZero

section \<open>Partitioner framework (pkg/kgo/partitioner.go)\<close>

subsection \<open>The least-backup topic partitioner\<close>

record leastBackupTopicPartitioner =
  onPart :: go_int

definition newLeastBackupTopicPartitioner :: leastBackupTopicPartitioner where
  "newLeastBackupTopicPartitioner = \<lparr>onPart = - 1\<rparr>"

definition OnNewBatch :: "leastBackupTopicPartitioner \<Rightarrow> leastBackupTopicPartitioner" where
  "OnNewBatch p = p\<lparr>onPart := - 1\<rparr>"

text \<open>
  The callback \<open>backupFn func() (int, int64)\<close> is a closure over state of its own: a
  function from that state to the pair it returns and the state it leaves, or a panic.
\<close>

type_synonym 's backupFn = "'s \<Rightarrow> panic + ((go_int \<times> int64) \<times> 's)"

text \<open>
  The loop \<open>for ; n > 0; n-- { pick, backup := backupFn(); if backup < leastBackup {...} }\<close>
  of \<open>PartitionByBackup\<close>, with the loop variables \<open>n\<close>, \<open>leastBackup\<close> and
  \<open>p.onPart\<close> as arguments.
\<close>

function scanBackup ::
  "'s backupFn \<Rightarrow> go_int \<Rightarrow> int64 \<Rightarrow> go_int \<Rightarrow> 's \<Rightarrow> panic + (go_int \<times> 's)" where
  "scanBackup backupFn n leastBackup on s =
     (if 0 <s n then
        (case backupFn s of
           Inl e \<Rightarrow> Inl e
         | Inr ((pick, backup), s') \<Rightarrow>
             if backup <s leastBackup
             then scanBackup backupFn (n - 1) backup pick s'
             else scanBackup backupFn (n - 1) leastBackup on s')
      else Inr (on, s))"
  by pat_completeness auto

termination
proof (relation "measure (\<lambda>(f, n, l, on, s). nat (sint n))")
  show "wf (measure (\<lambda>(f, n, l, on, s). nat (sint n)))" by simp
next
  fix backupFn :: "'s backupFn" and n :: go_int and leastBackup on s x2 x y pick backup
  assume pos: "0 <s n"
  have "sint (n - 1) = signed_take_bit 63 (sint n - 1)"
    by (simp add: sint_word_ariths)
  also have "\<dots> = sint n - 1"
    using pos sint_lt [of n]
    by (intro signed_take_bit_int_eq_self) (simp_all add: word_sless_alt)
  finally have dec: "nat (sint (n - 1)) < nat (sint n)"
    using pos by (simp add: word_sless_alt)
  show "((backupFn, n - 1, backup, pick, y), (backupFn, n, leastBackup, on, s))
               \<in> measure (\<lambda>(f, n, l, on, s). nat (sint n))"
    using dec by simp
  show "((backupFn, n - 1, leastBackup, on, y), (backupFn, n, leastBackup, on, s))
               \<in> measure (\<lambda>(f, n, l, on, s). nat (sint n))"
    using dec by simp
qed

declare scanBackup.simps [simp del]

text \<open>\<open>math.MaxInt64\<close>, the value \<open>leastBackup\<close> starts from.\<close>

definition MaxInt64 :: int64 where
  "MaxInt64 = 0x7FFFFFFFFFFFFFFF"

text \<open>
  \<open>PartitionByBackup(_, n, backupFn)\<close> returns the chosen index, the partitioner and the
  state of the callback.
\<close>

definition PartitionByBackup ::
  "leastBackupTopicPartitioner \<Rightarrow> go_int \<Rightarrow> 's backupFn \<Rightarrow> 's
     \<Rightarrow> panic + (go_int \<times> leastBackupTopicPartitioner \<times> 's)" where
  "PartitionByBackup p n backupFn s =
     (if onPart p = - 1 \<or> n \<le>s onPart p then
        (case scanBackup backupFn n MaxInt64 (onPart p) s of
           Inl e \<Rightarrow> Inl e
         | Inr (on, s') \<Rightarrow> Inr (on, p\<lparr>onPart := on\<rparr>, s'))
      else Inr (onPart p, p, s))"

text \<open>
  The callback of the source, \<open>lpInput.next\<close>: it reads the buffered count of partition
  \<open>on\<close> and advances \<open>on\<close>; indexing \<open>mapping\<close> out of range panics.  Only the buffered
  count of each \<open>topicPartition\<close> is kept in \<open>mapping\<close>.
\<close>

record lpInput =
  on :: go_int
  mapping :: "int64 list"

definition lpInput_next :: "lpInput backupFn" where
  "lpInput_next i =
     (if 0 \<le>s on i \<and> sint (on i) < int (length (mapping i))
      then Inr ((on i, mapping i ! nat (sint (on i))), i\<lparr>on := on i + 1\<rparr>)
      else Inl IndexOutOfRange)"

text \<open>
  A stand-in that counts the invocations of any callback, by pairing its state with a
  counter.
\<close>

definition counting :: "'s backupFn \<Rightarrow> ('s \<times> nat) backupFn" where
  "counting f = (\<lambda>(s, k). case f s of Inl e \<Rightarrow> Inl e | Inr (r, s') \<Rightarrow> Inr (r, (s', Suc k)))"

text \<open>
  The answers a callback gives when it is invoked \<open>k\<close> times in a row from state \<open>s\<close>,
  with the state it is left in.
\<close>

fun answers :: "'s backupFn \<Rightarrow> nat \<Rightarrow> 's \<Rightarrow> panic + ((go_int \<times> int64) list \<times> 's)" where
  "answers f 0 s = Inr ([], s)"
| "answers f (Suc k) s =
     (case f s of
        Inl e \<Rightarrow> Inl e
      | Inr (r, s') \<Rightarrow>
          (case answers f k s' of Inl e \<Rightarrow> Inl e | Inr (rs, s'') \<Rightarrow> Inr (r # rs, s'')))"

subsection \<open>Hashers\<close>

text \<open>
  Go's \<open>%\<close> truncates towards zero and panics on a zero divisor; \<open>int(x)\<close> of a
  \<open>uint32\<close> keeps the value where \<open>int\<close> is wider than 32 bits and keeps the bits where
  it is 32 bits wide, which is \<open>ucast\<close> in both cases.
\<close>

definition go_rem :: "'w::len word \<Rightarrow> 'w word \<Rightarrow> panic + 'w word" where
  "go_rem a b =
     (if b = 0 then Inl DivideByZero
      else Inr (word_of_int (sgn (sint a) * (\<bar>sint a\<bar> mod \<bar>sint b\<bar>))))"

definition KafkaHasher :: "(byte list \<Rightarrow> uint32) \<Rightarrow> byte list \<Rightarrow> 'w::len word \<Rightarrow> panic + 'w word" where
  "KafkaHasher hashFn key n = go_rem (ucast (hashFn key AND 0x7fffffff)) n"

definition SaramaHasher :: "(byte list \<Rightarrow> uint32) \<Rightarrow> byte list \<Rightarrow> 'w::len word \<Rightarrow> panic + 'w word" where
  "SaramaHasher hashFn key n =
     (case go_rem (ucast (hashFn key)) n of
        Inl e \<Rightarrow> Inl e
      | Inr p \<Rightarrow> Inr (if p <s 0 then - p else p))"

section \<open>Batch encoder (the produce request's custom AppendTo)\<close>

subsection \<open>The append primitives of package kbin\<close>

text \<open>
  Modelled from the spec: package \<open>kbin\<close> of this repository is not among the source
  files.  The specification describes it as the append-to-buffer encoding library for
  fixed-width integers (all big-endian), variable-length integers and length-prefixed
  strings and byte sequences.  Each primitive appends to the slice it is given and
  returns the result.  Variable-length integers are the protocol's signed varints:
  zigzag, then groups of seven bits, least significant group first, with the top bit of
  a byte set when more follow.  A nil byte sequence has the length prefix \<open>-1\<close>.
\<close>

definition AppendInt8 :: "byte list \<Rightarrow> int8 \<Rightarrow> byte list" where
  "AppendInt8 dst i = dst @ [i]"

definition AppendInt16 :: "byte list \<Rightarrow> int16 \<Rightarrow> byte list" where
  "AppendInt16 dst i = dst @ [ucast (drop_bit 8 i), ucast i]"

definition AppendInt32 :: "byte list \<Rightarrow> int32 \<Rightarrow> byte list" where
  "AppendInt32 dst i =
     dst @ [ucast (drop_bit 24 i), ucast (drop_bit 16 i), ucast (drop_bit 8 i), ucast i]"

definition AppendInt64 :: "byte list \<Rightarrow> int64 \<Rightarrow> byte list" where
  "AppendInt64 dst i =
     dst @ [ucast (drop_bit 56 i), ucast (drop_bit 48 i), ucast (drop_bit 40 i),
            ucast (drop_bit 32 i), ucast (drop_bit 24 i), ucast (drop_bit 16 i),
            ucast (drop_bit 8 i), ucast i]"

definition AppendArrayLen :: "byte list \<Rightarrow> nat \<Rightarrow> byte list" where
  "AppendArrayLen dst l = AppendInt32 dst (word_of_nat l)"

function AppendUvarint :: "byte list \<Rightarrow> uint32 \<Rightarrow> byte list" where
  "AppendUvarint dst u =
     (if u < 0x80 then dst @ [ucast u]
      else AppendUvarint (dst @ [ucast (u AND 0x7f) OR 0x80]) (drop_bit 7 u))"
  by pat_completeness auto
termination
proof (relation "measure (\<lambda>(dst, u). unat u)")
  show "wf (measure (\<lambda>(dst, u :: uint32). unat u))" by simp
next
  fix dst :: "byte list" and u :: uint32
  assume "\<not> u < 0x80"
  then have "0 < unat u" by (simp add: word_less_nat_alt)
  then have "unat u div 2 ^ 7 < unat u" by simp
  then show "((dst @ [ucast (u AND 0x7f) OR 0x80], drop_bit 7 u), (dst, u))
               \<in> measure (\<lambda>(dst, u). unat u)"
    by (simp add: drop_bit_eq_div unat_div)
qed

declare AppendUvarint.simps [simp del]

definition AppendVarint :: "byte list \<Rightarrow> int32 \<Rightarrow> byte list" where
  "AppendVarint dst i = AppendUvarint dst (push_bit 1 i XOR signed_drop_bit 31 i)"

definition AppendVarintString :: "byte list \<Rightarrow> byte list \<Rightarrow> byte list" where
  "AppendVarintString dst s = AppendVarint dst (word_of_nat (length s)) @ s"

definition AppendVarintBytes :: "byte list \<Rightarrow> byte list option \<Rightarrow> byte list" where
  "AppendVarintBytes dst b =
     (case b of
        None \<Rightarrow> AppendVarint dst (- 1)
      | Some bs \<Rightarrow> AppendVarint dst (word_of_nat (length bs)) @ bs)"

subsection \<open>CRC-32C\<close>

text \<open>
  \<open>crc32.MakeTable(crc32.Castagnoli)\<close> and \<open>crc32.Checksum\<close> of Go's \<open>hash/crc32\<close>, in
  its portable form: entry \<open>i\<close> of the table is \<open>i\<close> after eight steps of the reflected
  polynomial division, and the checksum folds the table over the bytes, starting from
  and ending with the complement.
\<close>

definition Castagnoli :: uint32 where
  "Castagnoli = 0x82f63b78"

definition crcBit :: "uint32 \<Rightarrow> uint32 \<Rightarrow> uint32" where
  "crcBit poly crc = (if crc AND 1 = 1 then drop_bit 1 crc XOR poly else drop_bit 1 crc)"

definition MakeTable :: "uint32 \<Rightarrow> byte \<Rightarrow> uint32" where
  "MakeTable poly i = (crcBit poly ^^ 8) (ucast i)"

definition crc32c :: "byte \<Rightarrow> uint32" where
  "crc32c = MakeTable Castagnoli"

definition Checksum :: "byte list \<Rightarrow> (byte \<Rightarrow> uint32) \<Rightarrow> uint32" where
  "Checksum data tab =
     NOT (fold (\<lambda>v crc. tab (ucast crc XOR v) XOR drop_bit 8 crc) data (NOT 0))"

subsection \<open>Records and batches\<close>

record RecordHeader =
  hdr_Key :: "byte list"
  hdr_Value :: "byte list option"

record Record =
  rec_Key :: "byte list option"
  rec_Value :: "byte list option"
  rec_Headers :: "RecordHeader list"

text \<open>
  A \<open>promisedNumberedRecord\<close> is a record with the numbers computed when it joined its
  batch (\<open>pnr.n\<close>) and the user's record (\<open>pnr.pr.r\<close>).
\<close>

record promisedNumberedRecord =
  lengthField :: int32
  timestampDelta :: int32
  offsetDelta :: int32
  pr_r :: Record

record recordBatch =
  wireLength :: int32
  attrs :: int16
  firstTimestamp :: int64
  records :: "promisedNumberedRecord list"

text \<open>
  Modelled from the spec: the type \<open>compressor\<close> is not among the source files.  To the
  encoder a codec is opaque: bytes in, bytes out (nil on an error), and attribute bits
  to OR into the attributes word of the batch.
\<close>

record compressor =
  compressor_attrs :: int8
  compress :: "byte list \<Rightarrow> byte list option"

definition pnr_appendTo :: "promisedNumberedRecord \<Rightarrow> byte list \<Rightarrow> byte list" where
  "pnr_appendTo pnr dst0 =
     (let dst = AppendVarint dst0 (lengthField pnr);
          dst = AppendInt8 dst 0;
          dst = AppendVarint dst (timestampDelta pnr);
          dst = AppendVarint dst (offsetDelta pnr);
          dst = AppendVarintBytes dst (rec_Key (pr_r pnr));
          dst = AppendVarintBytes dst (rec_Value (pr_r pnr));
          dst = AppendVarint dst (word_of_nat (length (rec_Headers (pr_r pnr))))
      in fold (\<lambda>h dst. AppendVarintBytes (AppendVarintString dst (hdr_Key h)) (hdr_Value h))
           (rec_Headers (pr_r pnr)) dst)"

text \<open>
  \<open>kbin.AppendInt32(dst[:at], v)\<close> with the result dropped: \<open>dst[:at]\<close> shares the array
  of \<open>dst\<close> and has room for the bytes appended, so they overwrite the bytes of \<open>dst\<close>
  from position \<open>at\<close> and the rest of \<open>dst\<close> stays.
\<close>

definition patchInt32 :: "byte list \<Rightarrow> nat \<Rightarrow> int32 \<Rightarrow> byte list" where
  "patchInt32 dst at v = AppendInt32 (take at dst) v @ drop (at + 4) dst"

definition patchInt16 :: "byte list \<Rightarrow> nat \<Rightarrow> int16 \<Rightarrow> byte list" where
  "patchInt16 dst at v = AppendInt16 (take at dst) v @ drop (at + 2) dst"

text \<open>
  \<open>recordBatch.appendTo\<close>.  Indexing the last record of an empty batch panics.  With a
  compressor whose output is not nil and shorter than the record region, \<open>copy\<close> and
  the reslicing leave the bytes before \<open>recordsAt\<close> followed by the compressed bytes.
\<close>

definition appendTo :: "recordBatch \<Rightarrow> byte list \<Rightarrow> compressor option \<Rightarrow> panic + byte list" where
  "appendTo r dst0 compressor =
     (let nullableBytesLen = wireLength r - 4;
          nullableBytesLenAt = length dst0;
          dst = AppendInt32 dst0 nullableBytesLen;
          dst = AppendInt64 dst 0;
          batchLen = nullableBytesLen - 8 - 4;
          batchLenAt = length dst;
          dst = AppendInt32 dst batchLen;
          dst = AppendInt32 dst (- 1);
          dst = AppendInt8 dst 2;
          crcStart = length dst;
          dst = AppendInt32 dst 0;
          attrsAt = length dst;
          dst = AppendInt16 dst (attrs r);
          dst = AppendInt32 dst (word_of_int (int (length (records r)) - 1));
          dst = AppendInt64 dst (firstTimestamp r)
      in if records r = [] then Inl IndexOutOfRange
         else
           let lastRecord = last (records r);
               dst = AppendInt64 dst (firstTimestamp r + scast (timestampDelta lastRecord));
               dst = AppendInt64 dst (- 1);
               dst = AppendInt16 dst (- 1);
               dst = AppendInt32 dst (- 1);
               dst = AppendArrayLen dst (length (records r));
               recordsAt = length dst;
               dst = fold pnr_appendTo (records r) dst;
               dst =
                 (case compressor of
                    None \<Rightarrow> dst
                  | Some c \<Rightarrow>
                      let toCompress = drop recordsAt dst in
                      (case compress c toCompress of
                         None \<Rightarrow> dst
                       | Some compressed \<Rightarrow>
                           if length compressed < length toCompress then
                             let dst = take recordsAt dst @ compressed;
                                 savings = word_of_nat (length toCompress - length compressed);
                                 dst = patchInt32 dst nullableBytesLenAt (nullableBytesLen - savings);
                                 dst = patchInt32 dst batchLenAt (batchLen - savings)
                             in patchInt16 dst attrsAt (attrs r OR scast (compressor_attrs c))
                           else dst))
           in Inr (patchInt32 dst crcStart (Checksum (drop (crcStart + 4) dst) crc32c)))"

text \<open>Reading the fixed-width fields back, for the statements about the encoded bytes.\<close>

definition readInt32 :: "byte list \<Rightarrow> nat \<Rightarrow> int32" where
  "readInt32 bs at =
     push_bit 24 (ucast (bs ! at)) OR push_bit 16 (ucast (bs ! (at + 1)))
       OR push_bit 8 (ucast (bs ! (at + 2))) OR ucast (bs ! (at + 3))"

definition readInt16 :: "byte list \<Rightarrow> nat \<Rightarrow> int16" where
  "readInt16 bs at = push_bit 8 (ucast (bs ! at)) OR ucast (bs ! (at + 1))"

subsection \<open>The layout of the specification\<close>

text \<open>
  The big-endian bytes of the fixed-width integers, and the layout of one encoded batch
  as section 4.1 of the specification lists it: the outer length, the base offset 0,
  the batch length, the partition leader epoch \<open>-1\<close>, the magic 2, the checksum of all
  that follows it, the attributes, the last offset delta, the two timestamps, the
  producer id, epoch and base sequence (all \<open>-1\<close>), the record count and the record
  region.  The implementation is compared with it below.
\<close>

definition be16 :: "int16 \<Rightarrow> byte list" where
  "be16 v = AppendInt16 [] v"

definition be32 :: "int32 \<Rightarrow> byte list" where
  "be32 v = AppendInt32 [] v"

definition be64 :: "int64 \<Rightarrow> byte list" where
  "be64 v = AppendInt64 [] v"

definition checkedRegion :: "recordBatch \<Rightarrow> int16 \<Rightarrow> byte list \<Rightarrow> byte list" where
  "checkedRegion r attrs' region =
     be16 attrs' @ be32 (word_of_int (int (length (records r)) - 1)) @
     be64 (firstTimestamp r) @
     be64 (firstTimestamp r + scast (timestampDelta (last (records r)))) @
     be64 (- 1) @ be16 (- 1) @ be32 (- 1) @
     be32 (word_of_nat (length (records r))) @ region"

definition batchLayout ::
  "recordBatch \<Rightarrow> byte list \<Rightarrow> int32 \<Rightarrow> int32 \<Rightarrow> int16 \<Rightarrow> byte list \<Rightarrow> byte list" where
  "batchLayout r dst outerLen batchLen attrs' region =
     dst @ be32 outerLen @ be64 0 @ be32 batchLen @ be32 (- 1) @ [2] @
     be32 (Checksum (checkedRegion r attrs' region) crc32c) @
     checkedRegion r attrs' region"

text \<open>The record region before compression: the records of the batch, one after the other.\<close>

definition recordRegion :: "recordBatch \<Rightarrow> byte list" where
  "recordRegion r = fold pnr_appendTo (records r) []"

text \<open>
  The outcome of compression as \<open>appendTo\<close> decides it: the compressed bytes when a
  compressor is given, its output is not nil and is strictly shorter than the record
  region; nothing otherwise.
\<close>

definition compressedRegion :: "recordBatch \<Rightarrow> compressor option \<Rightarrow> byte list option" where
  "compressedRegion r compressor =
     (case compressor of
        None \<Rightarrow> None
      | Some c \<Rightarrow>
          (case compress c (recordRegion r) of
             None \<Rightarrow> None
           | Some compressed \<Rightarrow>
               if length compressed < length (recordRegion r) then Some compressed else None))"

text \<open>
  A batch of one record (key of one byte, value of eight bytes, no headers), and three
  compressors for the examples: one that fails, one whose output is longer than its
  input, and one whose output is shorter.
\<close>

definition exampleBatch :: recordBatch where
  "exampleBatch =
     \<lparr>wireLength = 81, attrs = 0, firstTimestamp = 1000,
      records = [\<lparr>lengthField = 15, timestampDelta = 0, offsetDelta = 0,
                  pr_r = \<lparr>rec_Key = Some [1], rec_Value = Some [0, 0, 0, 0, 0, 0, 0, 0],
                          rec_Headers = []\<rparr>\<rparr>]\<rparr>"



definition shrinkingCompressor :: compressor where
  "shrinkingCompressor = \<lparr>compressor_attrs = 1, compress = (\<lambda>bs. Some (take 4 bs))\<rparr>"

section \<open>Assignment engine (consume_direct.go)\<close>

text \<open>
  A Go map is an association list with distinct keys: \<open>map_of\<close> looks a key up,
  \<open>AList.update\<close> stores, \<open>AList.delete\<close> deletes, \<open>length\<close> is \<open>len\<close>, and a
  \<open>range\<close> over the map visits the list in order.  Go leaves the order of a \<open>range\<close>
  over a map unspecified, so no statement below depends on the order of a list that
  stands for a map, and the one loop whose result depends on the order of its \<open>range\<close>
  (the regular expressions of \<open>d.topics\<close>, left at the first match) takes the order from
  a parameter.  A set (\<open>map[int32]struct{}\<close>) is a list without duplicates.
  \<open>Offset\<close> is a type parameter: the engine only copies offsets.
\<close>

type_synonym ('k, 'v) gomap = "('k \<times> 'v) list"

type_synonym partition = int32

record 'o directConsumer =
  topics :: "(string, 'o) gomap"
  partitions :: "(string, (partition, 'o) gomap) gomap"
  regexTopics :: bool
  reTopics :: "(string, 'o) gomap"
  reIgnore :: "string list"
  usingSet :: "(string, partition list) gomap"

text \<open>The invariants of the representation: keys and members are distinct.\<close>

definition wf_directConsumer :: "'o directConsumer \<Rightarrow> bool" where
  "wf_directConsumer d \<longleftrightarrow>
     distinct (map fst (topics d)) \<and>
     distinct (map fst (partitions d)) \<and>
     list_all (\<lambda>(topic, pins). distinct (map fst pins)) (partitions d) \<and>
     distinct (map fst (reTopics d)) \<and>
     distinct (reIgnore d) \<and>
     distinct (map fst (usingSet d)) \<and>
     list_all (\<lambda>(topic, ps). distinct ps) (usingSet d)"

text \<open>
  The consumer \<open>AssignPartitions\<close> starts from, and the three options.
\<close>

definition newDirectConsumer :: "'o directConsumer" where
  "newDirectConsumer =
     \<lparr>topics = [], partitions = [], regexTopics = False, reTopics = [], reIgnore = [],
      usingSet = []\<rparr>"

definition ConsumeTopics :: "'o \<Rightarrow> string list \<Rightarrow> 'o directConsumer \<Rightarrow> 'o directConsumer" where
  "ConsumeTopics offset ts cfg =
     cfg\<lparr>topics := fold (\<lambda>topic m. AList.update topic offset m) ts []\<rparr>"

definition ConsumePartitions ::
  "(string, (partition, 'o) gomap) gomap \<Rightarrow> 'o directConsumer \<Rightarrow> 'o directConsumer" where
  "ConsumePartitions ps cfg = cfg\<lparr>partitions := ps\<rparr>"

definition ConsumeTopicsRegex :: "'o directConsumer \<Rightarrow> 'o directConsumer" where
  "ConsumeTopicsRegex cfg = cfg\<lparr>regexTopics := True\<rparr>"

text \<open>
  \<open>xs\<close> is an order in which a \<open>range\<close> may visit the map \<open>m\<close>: the same entries, each
  once.
\<close>

definition rangeOf :: "('k, 'v) gomap \<Rightarrow> ('k \<times> 'v) list \<Rightarrow> bool" where
  "rangeOf m xs \<longleftrightarrow> distinct (map fst xs) \<and> set xs = set m"

text \<open>
  The loop \<open>for reTopic, offset := range d.topics\<close> with its \<open>break\<close>, over the entries in
  the order of the \<open>range\<close>.  \<open>regexp.MatchString\<close> is the parameter \<open>match\<close> (pattern
  first; an error counts as no match, as the source drops it).  Next to the offset of
  the first match the loop returns the calls of \<open>match\<close> it made, in order: what a
  call-counting stand-in for the regular expressions observes.
\<close>

fun matchTopics ::
  "(string \<Rightarrow> string \<Rightarrow> bool) \<Rightarrow> string \<Rightarrow> (string \<times> 'o) list
     \<Rightarrow> 'o option \<times> (string \<times> string) list" where
  "matchTopics match topic [] = (None, [])"
| "matchTopics match topic ((reTopic, offset) # rest) =
     (if match reTopic topic then (Some offset, [(reTopic, topic)])
      else (case matchTopics match topic rest of
              (found, calls) \<Rightarrow> (found, (reTopic, topic) # calls)))"

text \<open>
  Lines 111 to 141: whether the topic is wanted and at which offset (\<open>useTopic\<close>,
  \<open>useOffset\<close>), with the caches updated and the calls of \<open>match\<close> made.  \<open>order topic\<close> is
  the order in which the \<open>range\<close> over \<open>d.topics\<close> visits its entries while this topic
  is looked up.
\<close>

definition lookupTopic ::
  "(string \<Rightarrow> string \<Rightarrow> bool) \<Rightarrow> (string \<Rightarrow> (string \<times> 'o) list) \<Rightarrow> 'o directConsumer \<Rightarrow> string
     \<Rightarrow> 'o option \<times> 'o directConsumer \<times> (string \<times> string) list" where
  "lookupTopic match order d topic =
     (if regexTopics d then
        (case map_of (reTopics d) topic of
           Some offset \<Rightarrow> (Some offset, d, [])
         | None \<Rightarrow>
             if topic \<in> set (reIgnore d) then (None, d, [])
             else
               (case matchTopics match topic (order topic) of
                  (Some offset, calls) \<Rightarrow>
                    (Some offset, d\<lparr>reTopics := AList.update topic offset (reTopics d)\<rparr>, calls)
                | (None, calls) \<Rightarrow>
                    (None, d\<lparr>reIgnore := List.insert topic (reIgnore d)\<rparr>, calls)))
      else (map_of (topics d) topic, d, []))"

text \<open>\<open>d.partitions[topic]\<close>: the pins of a topic, none for a topic without an entry.\<close>

definition pinsOf :: "'o directConsumer \<Rightarrow> string \<Rightarrow> (partition, 'o) gomap" where
  "pinsOf d topic = (case map_of (partitions d) topic of None \<Rightarrow> [] | Some pins \<Rightarrow> pins)"

text \<open>
  Lines 143 to 163 for one topic of the topology: all its partitions at the offset of
  the topic if it is wanted, then the pinned partitions at their own offsets.
\<close>

definition stagePartitions ::
  "'o option \<Rightarrow> (partition, 'o) gomap \<Rightarrow> string \<Rightarrow> partition list
     \<Rightarrow> (string, (partition, 'o) gomap) gomap \<Rightarrow> (string, (partition, 'o) gomap) gomap" where
  "stagePartitions use pins topic parts toUse =
     (let toUse =
            (case use of
               Some useOffset \<Rightarrow>
                 AList.update topic
                   (fold (\<lambda>partition toUseTopic. AList.update partition useOffset toUseTopic)
                      parts []) toUse
             | None \<Rightarrow> toUse)
      in fold (\<lambda>(partition, offset) toUse.
                 let toUseTopic = (case map_of toUse topic of None \<Rightarrow> [] | Some m \<Rightarrow> m)
                 in AList.update topic (AList.update partition offset toUseTopic) toUse)
           pins toUse)"

text \<open>The body of the first loop: one topic of the topology with its partitions.\<close>

definition stageTopic ::
  "(string \<Rightarrow> string \<Rightarrow> bool) \<Rightarrow> (string \<Rightarrow> (string \<times> 'o) list) \<Rightarrow> string \<times> partition list
     \<Rightarrow> 'o directConsumer \<times> (string, (partition, 'o) gomap) gomap \<times> (string \<times> string) list
     \<Rightarrow> 'o directConsumer \<times> (string, (partition, 'o) gomap) gomap \<times> (string \<times> string) list" where
  "stageTopic match order tp st =
     (case (tp, st) of
        ((topic, parts), (d, toUse, calls)) \<Rightarrow>
          (case lookupTopic match order d topic of
             (use, d', calls') \<Rightarrow>
               (d', stagePartitions use (pinsOf d topic) topic parts toUse, calls @ calls')))"

text \<open>Lines 166 to 179: what is already in use is removed from what is staged.\<close>

definition removeUsing ::
  "(string, partition list) gomap \<Rightarrow> (string, (partition, 'o) gomap) gomap
     \<Rightarrow> (string, (partition, 'o) gomap) gomap" where
  "removeUsing using toUse =
     fold (\<lambda>(topic, parts) toUse.
             (case map_of toUse topic of
                None \<Rightarrow> toUse
              | Some toUseTopic \<Rightarrow>
                  if length parts = length toUseTopic then AList.delete topic toUse
                  else AList.update topic
                         (fold (\<lambda>partition m. AList.delete partition m) parts toUseTopic) toUse))
       using toUse"

text \<open>Lines 187 to 196: the partitions to use are added to the using map.\<close>

definition addUsing ::
  "(string, (partition, 'o) gomap) gomap \<Rightarrow> (string, partition list) gomap
     \<Rightarrow> (string, partition list) gomap" where
  "addUsing toUse using =
     fold (\<lambda>(topic, parts) using.
             let topicUsing = (case map_of using topic of None \<Rightarrow> [] | Some u \<Rightarrow> u)
             in AList.update topic
                  (fold (\<lambda>(partition, offset) u. List.insert partition u) parts topicUsing) using)
       toUse using"

text \<open>
  \<open>findNewAssignments\<close>: the delta (\<open>None\<close> for the nil map), the consumer as the call
  leaves it, and the calls of \<open>match\<close> made.  The topology maps each topic to the
  partitions loaded for it.
\<close>

definition findNewAssignments ::
  "(string \<Rightarrow> string \<Rightarrow> bool) \<Rightarrow> (string \<Rightarrow> (string \<times> 'o) list) \<Rightarrow> 'o directConsumer
     \<Rightarrow> (string, partition list) gomap
     \<Rightarrow> (string, (partition, 'o) gomap) gomap option \<times> 'o directConsumer
          \<times> (string \<times> string) list" where
  "findNewAssignments match order d topology =
     (case fold (stageTopic match order) topology (d, [], []) of
        (d', toUse, calls) \<Rightarrow>
          (let toUse = removeUsing (usingSet d') toUse
           in if length toUse = 0 then (None, d', calls)
              else (Some toUse, d'\<lparr>usingSet := addUsing toUse (usingSet d')\<rparr>, calls)))"

text \<open>
  What a delta offers and what the using map holds, as sets of pairs and as lookups.
\<close>

definition offered :: "(string, (partition, 'o) gomap) gomap option \<Rightarrow> string \<Rightarrow> partition \<Rightarrow> 'o option" where
  "offered delta topic p =
     (case delta of
        None \<Rightarrow> None
      | Some toUse \<Rightarrow> (case map_of toUse topic of None \<Rightarrow> None | Some m \<Rightarrow> map_of m p))"

definition usingPairs :: "'o directConsumer \<Rightarrow> (string \<times> partition) set" where
  "usingPairs d = {(topic, p). \<exists>ps. map_of (usingSet d) topic = Some ps \<and> p \<in> set ps}"

text \<open>
  A sequence of reconciliations, each with its own stand-in for the regular
  expressions, order of the \<open>range\<close> and topology; the consumer after the last one.
\<close>

fun reconcileAll ::
  "((string \<Rightarrow> string \<Rightarrow> bool) \<times> (string \<Rightarrow> (string \<times> 'o) list) \<times> (string, partition list) gomap) list
     \<Rightarrow> 'o directConsumer \<Rightarrow> 'o directConsumer" where
  "reconcileAll [] d = d"
| "reconcileAll ((match, order, topology) # rest) d =
     reconcileAll rest (fst (snd (findNewAssignments match order d topology)))"

text \<open>
  The using map of \<open>d'\<close> has every topic of the using map of \<open>d\<close>, with at least the
  partitions it has there.
\<close>

definition usingGrows :: "'o directConsumer \<Rightarrow> 'o directConsumer \<Rightarrow> bool" where
  "usingGrows d d' \<longleftrightarrow>
     (\<forall>topic ps. map_of (usingSet d) topic = Some ps \<longrightarrow>
        (\<exists>ps'. map_of (usingSet d') topic = Some ps' \<and> set ps \<subseteq> set ps'))"

text \<open>
  Consumers and stand-ins for the examples.  Offsets are numbers here: 0 for the
  earliest offset, 1 for the latest.  \<open>bothTopics\<close> wants the topics \<open>t\<close> and \<open>u\<close> by name.
\<close>

definition noMatch :: "string \<Rightarrow> string \<Rightarrow> bool" where
  "noMatch pat topic = False"

definition noOrder :: "string \<Rightarrow> (string \<times> nat) list" where
  "noOrder topic = []"

definition bothTopics :: "nat directConsumer" where
  "bothTopics = ConsumeTopics 0 [''t'', ''u''] newDirectConsumer"





text \<open>
  \<open>regexConsumer\<close> is configured with the patterns \<open>a.*\<close> and \<open>.*b\<close>, declared in this
  order, in regex mode; \<open>twoOffsets\<close> has the same patterns with different offsets.
  \<open>exampleMatch\<close> agrees with \<open>regexp.MatchString\<close> on the two patterns: \<open>a.*\<close> matches
  the names with an \<open>a\<close>, \<open>.*b\<close> those with a \<open>b\<close>.  \<open>orderSwapped\<close> is the \<open>range\<close> that
  visits \<open>.*b\<close> first.
\<close>

definition regexConsumer :: "nat directConsumer" where
  "regexConsumer = ConsumeTopicsRegex (ConsumeTopics 0 [''a.*'', ''.*b''] newDirectConsumer)"

definition twoOffsets :: "nat directConsumer" where
  "twoOffsets = regexConsumer\<lparr>topics := [(''a.*'', 0), (''.*b'', 1)]\<rparr>"

definition exampleMatch :: "string \<Rightarrow> string \<Rightarrow> bool" where
  "exampleMatch pat topic \<longleftrightarrow>
     pat = ''a.*'' \<and> CHR ''a'' \<in> set topic \<or> pat = ''.*b'' \<and> CHR ''b'' \<in> set topic"

definition orderSwapped :: "string \<Rightarrow> (string \<times> nat) list" where
  "orderSwapped topic = [(''.*b'', 0), (''a.*'', 0)]"

definition orderSwapped' :: "string \<Rightarrow> (string \<times> nat) list" where
  "orderSwapped' topic = [(''.*b'', 1), (''a.*'', 0)]"

section \<open>Verification of the partitioner framework\<close>

subsection \<open>The least-backup scan\<close>

lemma answers_length:
  "answers f k s = Inr (rs, s') \<Longrightarrow> length rs = k"
  by (induction k arbitrary: s rs) (auto split: sum.splits)

lemma answers_counting:
  "answers f k s = Inr (rs, s') \<Longrightarrow> answers (counting f) k (s, c) = Inr (rs, (s', c + k))"
proof (induction k arbitrary: s rs c)
  case 0
  then show ?case by simp
next
  case (Suc k)
  then show ?case
    by (auto simp: counting_def split: sum.splits)
qed

lemma sint_pred:
  fixes n :: go_int
  assumes "sint n = int (Suc k)"
  shows "sint (n - 1) = int k"
proof -
  have "sint (n - 1) = signed_take_bit 63 (sint n - 1)"
    by (simp add: sint_word_ariths)
  also have "\<dots> = sint n - 1"
    using assms sint_lt [of n]
    by (intro signed_take_bit_int_eq_self) simp_all
  finally show ?thesis using assms by simp
qed

lemma scanBackup_answers:
  assumes "answers f k s = Inr (rs, s')" and "sint n = int k"
  shows "\<exists>sel. scanBackup f n lb cur s = Inr (sel, s') \<and>
           (((\<forall>r\<in>set rs. \<not> snd r <s lb) \<and> sel = cur) \<or>
            (\<exists>i<length rs. sel = fst (rs ! i) \<and> snd (rs ! i) <s lb \<and>
               (\<forall>j<length rs. snd (rs ! i) \<le>s snd (rs ! j)) \<and>
               (\<forall>j<i. snd (rs ! i) <s snd (rs ! j))))"
  using assms
proof (induction k arbitrary: s rs n lb cur)
  case 0
  then have "\<not> 0 <s n" by (simp add: word_sless_alt)
  with 0 show ?case by (simp add: scanBackup.simps)
next
  case (Suc k)
  from Suc.prems(2) have pos: "0 <s n" by (simp add: word_sless_alt)
  from Suc.prems(2) have pred: "sint (n - 1) = int k" by (rule sint_pred)
  from Suc.prems(1) obtain pick backup s1 rs1 where
    f: "f s = Inr ((pick, backup), s1)" and
    a: "answers f k s1 = Inr (rs1, s')" and
    rs: "rs = (pick, backup) # rs1"
    by (auto split: sum.splits)
  show ?case
  proof (cases "backup <s lb")
    case True
    from Suc.IH [OF a pred, of backup pick] obtain sel where
      sc: "scanBackup f (n - 1) backup pick s1 = Inr (sel, s')" and
      alt: "((\<forall>r\<in>set rs1. \<not> snd r <s backup) \<and> sel = pick) \<or>
            (\<exists>i<length rs1. sel = fst (rs1 ! i) \<and> snd (rs1 ! i) <s backup \<and>
               (\<forall>j<length rs1. snd (rs1 ! i) \<le>s snd (rs1 ! j)) \<and>
               (\<forall>j<i. snd (rs1 ! i) <s snd (rs1 ! j)))"
      by blast
    have res: "scanBackup f n lb cur s = Inr (sel, s')"
      using pos f True sc by (subst scanBackup.simps) simp
    from alt show ?thesis
    proof
      assume h: "(\<forall>r\<in>set rs1. \<not> snd r <s backup) \<and> sel = pick"
      have "\<forall>j<length rs. snd (rs ! 0) \<le>s snd (rs ! j)"
      proof (intro allI impI)
        fix j assume "j < length rs"
        then show "snd (rs ! 0) \<le>s snd (rs ! j)"
          using h rs by (cases j) (auto simp: word_sless_alt word_sle_eq not_less)
      qed
      then have "\<exists>i<length rs. sel = fst (rs ! i) \<and> snd (rs ! i) <s lb \<and>
               (\<forall>j<length rs. snd (rs ! i) \<le>s snd (rs ! j)) \<and>
               (\<forall>j<i. snd (rs ! i) <s snd (rs ! j))"
        using h rs True by (intro exI [of _ 0]) simp
      with res show ?thesis by blast
    next
      assume "\<exists>i<length rs1. sel = fst (rs1 ! i) \<and> snd (rs1 ! i) <s backup \<and>
               (\<forall>j<length rs1. snd (rs1 ! i) \<le>s snd (rs1 ! j)) \<and>
               (\<forall>j<i. snd (rs1 ! i) <s snd (rs1 ! j))"
      then obtain i where i: "i < length rs1" "sel = fst (rs1 ! i)" "snd (rs1 ! i) <s backup"
        "\<forall>j<length rs1. snd (rs1 ! i) \<le>s snd (rs1 ! j)" "\<forall>j<i. snd (rs1 ! i) <s snd (rs1 ! j)"
        by blast
      have a1: "\<forall>j<length rs. snd (rs ! Suc i) \<le>s snd (rs ! j)"
      proof (intro allI impI)
        fix j assume "j < length rs"
        then show "snd (rs ! Suc i) \<le>s snd (rs ! j)"
          using i rs by (cases j) (auto simp: word_sless_alt word_sle_eq)
      qed
      have a2: "\<forall>j<Suc i. snd (rs ! Suc i) <s snd (rs ! j)"
      proof (intro allI impI)
        fix j assume "j < Suc i"
        then show "snd (rs ! Suc i) <s snd (rs ! j)"
          using i rs by (cases j) (auto simp: word_sless_alt word_sle_eq)
      qed
      have a3: "snd (rs ! Suc i) <s lb"
        using i True rs by (auto simp: word_sless_alt)
      have "\<exists>i<length rs. sel = fst (rs ! i) \<and> snd (rs ! i) <s lb \<and>
               (\<forall>j<length rs. snd (rs ! i) \<le>s snd (rs ! j)) \<and>
               (\<forall>j<i. snd (rs ! i) <s snd (rs ! j))"
        using i(1,2) rs a1 a2 a3 by (intro exI [of _ "Suc i"]) simp
      with res show ?thesis by blast
    qed
  next
    case False
    from Suc.IH [OF a pred, of lb cur] obtain sel where
      sc: "scanBackup f (n - 1) lb cur s1 = Inr (sel, s')" and
      alt: "((\<forall>r\<in>set rs1. \<not> snd r <s lb) \<and> sel = cur) \<or>
            (\<exists>i<length rs1. sel = fst (rs1 ! i) \<and> snd (rs1 ! i) <s lb \<and>
               (\<forall>j<length rs1. snd (rs1 ! i) \<le>s snd (rs1 ! j)) \<and>
               (\<forall>j<i. snd (rs1 ! i) <s snd (rs1 ! j)))"
      by blast
    have res: "scanBackup f n lb cur s = Inr (sel, s')"
      using pos f False sc by (subst scanBackup.simps) simp
    from alt show ?thesis
    proof
      assume "(\<forall>r\<in>set rs1. \<not> snd r <s lb) \<and> sel = cur"
      then have "(\<forall>r\<in>set rs. \<not> snd r <s lb) \<and> sel = cur"
        using False rs by simp
      with res show ?thesis by blast
    next
      assume "\<exists>i<length rs1. sel = fst (rs1 ! i) \<and> snd (rs1 ! i) <s lb \<and>
               (\<forall>j<length rs1. snd (rs1 ! i) \<le>s snd (rs1 ! j)) \<and>
               (\<forall>j<i. snd (rs1 ! i) <s snd (rs1 ! j))"
      then obtain i where i: "i < length rs1" "sel = fst (rs1 ! i)" "snd (rs1 ! i) <s lb"
        "\<forall>j<length rs1. snd (rs1 ! i) \<le>s snd (rs1 ! j)" "\<forall>j<i. snd (rs1 ! i) <s snd (rs1 ! j)"
        by blast
      have a1: "\<forall>j<length rs. snd (rs ! Suc i) \<le>s snd (rs ! j)"
      proof (intro allI impI)
        fix j assume "j < length rs"
        then show "snd (rs ! Suc i) \<le>s snd (rs ! j)"
          using i rs False by (cases j) (auto simp: word_sless_alt word_sle_eq)
      qed
      have a2: "\<forall>j<Suc i. snd (rs ! Suc i) <s snd (rs ! j)"
      proof (intro allI impI)
        fix j assume "j < Suc i"
        then show "snd (rs ! Suc i) <s snd (rs ! j)"
          using i rs False by (cases j) (auto simp: word_sless_alt word_sle_eq)
      qed
      have "\<exists>i<length rs. sel = fst (rs ! i) \<and> snd (rs ! i) <s lb \<and>
               (\<forall>j<length rs. snd (rs ! i) \<le>s snd (rs ! j)) \<and>
               (\<forall>j<i. snd (rs ! i) <s snd (rs ! j))"
        using i(1,2,3) rs a1 a2 by (intro exI [of _ "Suc i"]) simp
      with res show ?thesis by blast
    qed
  qed
qed



text \<open>
  The scan where some count is below \<open>math.MaxInt64\<close>.  When the partitioner is
  unpinned (\<open>onPart = -1\<close>) or its pin is not valid for \<open>n\<close> (\<open>onPart \<ge> n\<close>), and the
  callback answers \<open>n\<close> invocations with the pairs \<open>rs\<close>, at least one of them with a
  buffered count other than \<open>math.MaxInt64\<close>, then \<open>PartitionByBackup\<close> invokes the
  callback exactly \<open>n\<close> times (the counter of the counting stand-in advances by \<open>n\<close>) and
  selects the pick of an answer whose count is minimal and strictly below every earlier
  count: the first minimum in scan order.
\<close>

lemma PartitionByBackup_least_backup:
  assumes unpinned: "onPart p = - 1 \<or> n \<le>s onPart p"
    and ans: "answers backupFn (nat (sint n)) s = Inr (rs, s')"
    and below: "\<exists>r\<in>set rs. snd r \<noteq> MaxInt64"
  shows "(\<exists>i<length rs.
            PartitionByBackup p n (counting backupFn) (s, k)
              = Inr (fst (rs ! i), p\<lparr>onPart := fst (rs ! i)\<rparr>, (s', k + nat (sint n))) \<and>
            (\<forall>j<length rs. snd (rs ! i) \<le>s snd (rs ! j)) \<and>
            (\<forall>j<i. snd (rs ! i) <s snd (rs ! j))) \<and>
         length rs = nat (sint n) \<and> 0 <s n \<and>
         (\<not> (onPart q = - 1 \<or> m \<le>s onPart q) \<longrightarrow>
            PartitionByBackup q m (counting backupFn) (t, c) = Inr (onPart q, q, (t, c))) \<and>
         onPart (OnNewBatch q) = - 1"
proof -
  have len: "length rs = nat (sint n)" using ans by (rule answers_length)
  from below obtain r where r: "r \<in> set rs" "snd r \<noteq> MaxInt64" by blast
  then have "rs \<noteq> []" by auto
  with len have npos: "0 < sint n"
    by (metis length_greater_0_conv zero_less_nat_eq)
  then have pos: "0 <s n" by (simp add: word_sless_alt)
  have n: "sint n = int (nat (sint n))" using npos by simp
  have "sint (snd r) \<le> sint MaxInt64"
    using sint_lt [of "snd r"] by (simp add: MaxInt64_def)
  moreover have "sint (snd r) \<noteq> sint MaxInt64"
    using r(2) signed_word_eqI by blast
  ultimately have "snd r <s MaxInt64" by (simp add: word_sless_alt)
  with r(1) have some: "\<not> (\<forall>r\<in>set rs. \<not> snd r <s MaxInt64)" by blast
  from scanBackup_answers [OF answers_counting [OF ans, of k] n, of MaxInt64 "onPart p"] some
  obtain i where i: "i < length rs"
    "scanBackup (counting backupFn) n MaxInt64 (onPart p) (s, k) = Inr (fst (rs ! i), (s', k + nat (sint n)))"
    "\<forall>j<length rs. snd (rs ! i) \<le>s snd (rs ! j)" "\<forall>j<i. snd (rs ! i) <s snd (rs ! j)"
    by blast
  have "PartitionByBackup p n (counting backupFn) (s, k)
          = Inr (fst (rs ! i), p\<lparr>onPart := fst (rs ! i)\<rparr>, (s', k + nat (sint n)))"
    using unpinned i(2) by (simp add: PartitionByBackup_def)
  with i have first: "\<exists>i<length rs.
            PartitionByBackup p n (counting backupFn) (s, k)
              = Inr (fst (rs ! i), p\<lparr>onPart := fst (rs ! i)\<rparr>, (s', k + nat (sint n))) \<and>
            (\<forall>j<length rs. snd (rs ! i) \<le>s snd (rs ! j)) \<and>
            (\<forall>j<i. snd (rs ! i) <s snd (rs ! j))"
    by blast
  have pinned: "\<not> (onPart q = - 1 \<or> m \<le>s onPart q) \<longrightarrow>
            PartitionByBackup q m (counting backupFn) (t, c) = Inr (onPart q, q, (t, c))"
    by (simp add: PartitionByBackup_def)
  have reset: "onPart (OnNewBatch q) = - 1" by (simp add: OnNewBatch_def)
  from first len pos pinned reset show ?thesis by blast
qed


text \<open>
  The counts \<open>{0:5, 1:2, 2:2, 3:9}\<close> of the specification: the first decision selects
  index 1 after four invocations, and the next decision returns the pin.
\<close>

lemma PartitionByBackup_spec_example:
  "(onPart newLeastBackupTopicPartitioner = - 1 \<or> 4 \<le>s onPart newLeastBackupTopicPartitioner) \<and>
   answers lpInput_next (nat (sint (4 :: go_int))) \<lparr>on = 0, mapping = [5, 2, 2, 9]\<rparr>
     = Inr ([(0, 5), (1, 2), (2, 2), (3, 9)], \<lparr>on = 4, mapping = [5, 2, 2, 9]\<rparr>) \<and>
   (\<exists>r\<in>set ([(0, 5), (1, 2), (2, 2), (3, 9)] :: (go_int \<times> int64) list). snd r \<noteq> MaxInt64) \<and>
   PartitionByBackup newLeastBackupTopicPartitioner 4 (counting lpInput_next)
       (\<lparr>on = 0, mapping = [5, 2, 2, 9]\<rparr>, 0)
     = Inr (1, \<lparr>onPart = 1\<rparr>, (\<lparr>on = 4, mapping = [5, 2, 2, 9]\<rparr>, 4)) \<and>
   PartitionByBackup \<lparr>onPart = 1\<rparr> 4 (counting lpInput_next)
       (\<lparr>on = 4, mapping = [5, 2, 2, 9]\<rparr>, 4)
     = Inr (1, \<lparr>onPart = 1\<rparr>, (\<lparr>on = 4, mapping = [5, 2, 2, 9]\<rparr>, 4)) \<and>
   onPart (OnNewBatch \<lparr>onPart = 1\<rparr>) = - 1"
proof -
  let ?rs = "[(0, 5), (1, 2), (2, 2), (3, 9)] :: (go_int \<times> int64) list"
  let ?s = "\<lparr>on = 0, mapping = [5, 2, 2, 9]\<rparr>"
  let ?s' = "\<lparr>on = 4, mapping = [5, 2, 2, 9]\<rparr>"
  have h1: "onPart newLeastBackupTopicPartitioner = - 1 \<or> 4 \<le>s onPart newLeastBackupTopicPartitioner"
    by (simp add: newLeastBackupTopicPartitioner_def)
  have h2: "answers lpInput_next (nat (sint (4 :: go_int))) ?s = Inr (?rs, ?s')"
    by (simp add: eval_nat_numeral lpInput_next_def word_sle_eq)
  have h3: "\<exists>r\<in>set ?rs. snd r \<noteq> MaxInt64"
    by (simp add: MaxInt64_def)
  note main = PartitionByBackup_least_backup [OF h1 h2 h3, of 0 "\<lparr>onPart = 1\<rparr>" 4 ?s' 4]
  then obtain i where i: "i < length ?rs"
    "PartitionByBackup newLeastBackupTopicPartitioner 4 (counting lpInput_next) (?s, 0)
       = Inr (fst (?rs ! i), newLeastBackupTopicPartitioner\<lparr>onPart := fst (?rs ! i)\<rparr>,
              (?s', 0 + nat (sint (4 :: go_int))))"
    "\<forall>j<length ?rs. snd (?rs ! i) \<le>s snd (?rs ! j)"
    "\<forall>j<i. snd (?rs ! i) <s snd (?rs ! j)"
    by blast
  from i(1) have "i = 0 \<or> i = 1 \<or> i = 2 \<or> i = 3" by auto
  moreover have "i \<noteq> 0"
  proof
    assume "i = 0"
    with i(3) [rule_format, of 1] show False by simp
  qed
  moreover have "i \<noteq> 2"
  proof
    assume "i = 2"
    with i(4) [rule_format, of 1] show False by simp
  qed
  moreover have "i \<noteq> 3"
  proof
    assume "i = 3"
    with i(3) [rule_format, of 1] show False by simp
  qed
  ultimately have "i = 1" by blast
  with i(2) have sel: "PartitionByBackup newLeastBackupTopicPartitioner 4 (counting lpInput_next) (?s, 0)
     = Inr (1, \<lparr>onPart = 1\<rparr>, (?s', 4))"
    by (simp add: newLeastBackupTopicPartitioner_def)
  from main have pin: "PartitionByBackup \<lparr>onPart = 1\<rparr> 4 (counting lpInput_next) (?s', 4)
     = Inr (1, \<lparr>onPart = 1\<rparr>, (?s', 4))"
    by (simp add: word_sle_eq)
  from main have reset: "onPart (OnNewBatch \<lparr>onPart = 1\<rparr>) = - 1" by blast
  from h1 h2 h3 sel pin reset show ?thesis by blast
qed


text \<open>
  While pinned with a valid index, \<open>PartitionByBackup\<close> returns the pin, leaves the
  partitioner as it is and does not invoke the callback, whatever the callback is.
\<close>

lemma PartitionByBackup_pinned:
  assumes "\<not> (onPart p = - 1 \<or> n \<le>s onPart p)"
  shows "PartitionByBackup p n backupFn s = Inr (onPart p, p, s)"
  using assms by (simp add: PartitionByBackup_def)

lemma OnNewBatch_resets: "onPart (OnNewBatch p) = - 1"
  by (simp add: OnNewBatch_def)

text \<open>
  The scan where every count is \<open>math.MaxInt64\<close>: the callback is invoked \<open>n\<close> times and
  no count is below the value the scan starts from, so nothing is selected and the
  result is the \<open>onPart\<close> the call started with, \<open>-1\<close> or the pin that is not valid.
\<close>

lemma PartitionByBackup_all_max:
  assumes unpinned: "onPart p = - 1 \<or> n \<le>s onPart p"
    and nonneg: "0 \<le>s n"
    and ans: "answers backupFn (nat (sint n)) s = Inr (rs, s')"
    and allmax: "\<forall>r\<in>set rs. snd r = MaxInt64"
  shows "PartitionByBackup p n (counting backupFn) (s, k)
           = Inr (onPart p, p, (s', k + nat (sint n)))"
proof -
  have n: "sint n = int (nat (sint n))" using nonneg by (simp add: word_sle_eq)
  have none: "\<forall>r\<in>set rs. \<not> snd r <s MaxInt64"
    using allmax by (simp add: word_sless_alt)
  from scanBackup_answers [OF answers_counting [OF ans, of k] n, of MaxInt64 "onPart p"]
  obtain sel where sel:
    "scanBackup (counting backupFn) n MaxInt64 (onPart p) (s, k) = Inr (sel, (s', k + nat (sint n)))"
    "((\<forall>r\<in>set rs. \<not> snd r <s MaxInt64) \<and> sel = onPart p) \<or>
       (\<exists>i<length rs. sel = fst (rs ! i) \<and> snd (rs ! i) <s MaxInt64 \<and>
          (\<forall>j<length rs. snd (rs ! i) \<le>s snd (rs ! j)) \<and>
          (\<forall>j<i. snd (rs ! i) <s snd (rs ! j)))"
    by blast
  from sel(2) none have "sel = onPart p" by (auto dest: nth_mem)
  with sel(1) unpinned show ?thesis by (simp add: PartitionByBackup_def)
qed

text \<open>
  Claim C9 at the failing input.  With one partition whose buffered count is
  \<open>math.MaxInt64\<close>, the unpinned partitioner invokes the callback once and returns \<open>-1\<close>
  where the partition with the minimum count is 0.  With two such partitions and the
  stale pin 5, it invokes the callback twice and returns 5, which is no partition of
  the two.
\<close>

theorem PartitionByBackup_sentinel:
  "PartitionByBackup newLeastBackupTopicPartitioner 1 (counting lpInput_next)
       (\<lparr>on = 0, mapping = [MaxInt64]\<rparr>, 0)
     = Inr (- 1, \<lparr>onPart = - 1\<rparr>, (\<lparr>on = 1, mapping = [MaxInt64]\<rparr>, 1)) \<and>
   PartitionByBackup \<lparr>onPart = 5\<rparr> 2 (counting lpInput_next)
       (\<lparr>on = 0, mapping = [MaxInt64, MaxInt64]\<rparr>, 0)
     = Inr (5, \<lparr>onPart = 5\<rparr>, (\<lparr>on = 2, mapping = [MaxInt64, MaxInt64]\<rparr>, 2))"
  by (simp add: PartitionByBackup_def newLeastBackupTopicPartitioner_def scanBackup.simps
      lpInput_next_def counting_def word_sle_eq word_sless_alt)


subsection \<open>The Sarama hasher\<close>

lemma sint_small:
  fixes x :: int
  assumes "- (2 ^ 63) \<le> x" "x < 2 ^ 63"
  shows "sint (word_of_int x :: go_int) = x"
  using assms by (simp add: sint_sbintrunc' signed_take_bit_int_eq_self)


lemma sint_small32:
  fixes x :: int
  assumes "- (2 ^ 31) \<le> x" "x < 2 ^ 31"
  shows "sint (word_of_int x :: int32) = x"
  using assms by (simp add: sint_sbintrunc' signed_take_bit_int_eq_self)

lemma SaramaHasher_int64:
  fixes n :: go_int
  assumes "0 <s n"
  shows "SaramaHasher hashFn key n = Inr (word_of_int (uint (hashFn key) mod sint n))"
proof -
  let ?h = "hashFn key"
  have npos: "0 < sint n" using assms by (simp add: word_sless_alt)
  have nlt: "sint n < 2 ^ 63" using sint_lt [of n] by simp
  have hlt: "uint ?h < 2 ^ 32" using uint_bounded [of ?h] by simp
  have sa: "sint (ucast ?h :: go_int) = uint ?h"
  proof -
    have "- (2 ^ 63) \<le> (0 :: int)" by simp
    also have "0 \<le> uint ?h" by simp
    finally have lo: "- (2 ^ 63) \<le> uint ?h" .
    have "(2 :: int) ^ 32 < 2 ^ 63" by simp
    with hlt have hi: "uint ?h < 2 ^ 63" by (rule less_trans)
    from lo hi have "signed_take_bit 63 (uint ?h) = uint ?h"
      by (rule signed_take_bit_int_eq_self)
    then show ?thesis by (simp add: signed_ucast_eq)
  qed
  have m: "0 \<le> uint ?h mod sint n" "uint ?h mod sint n < sint n"
    using npos by simp_all
  have sp: "sint (word_of_int (uint ?h mod sint n) :: go_int) = uint ?h mod sint n"
    using m nlt by (intro sint_small) simp_all
  have n0: "n \<noteq> 0" using npos by auto
  have sg: "sgn (uint ?h) * (uint ?h mod sint n) = uint ?h mod sint n"
  proof -
    have "0 < uint ?h \<or> uint ?h = 0" using uint_ge_0 [of ?h] by linarith
    then show ?thesis by (auto simp: sgn_if)
  qed
  have abs: "\<bar>sint n\<bar> = sint n" using npos by simp
  show ?thesis
    using n0 sp m(1) by (simp add: SaramaHasher_def go_rem_def sa sg abs word_sless_alt)
qed

lemma SaramaHasher_int32:
  fixes n :: int32
  assumes "0 <s n"
  shows "SaramaHasher hashFn key n = Inr (word_of_int (\<bar>sint (hashFn key)\<bar> mod sint n))"
proof -
  let ?a = "sint (hashFn key)"
  let ?N = "sint n"
  define v where "v = sgn ?a * (\<bar>?a\<bar> mod ?N)"
  have npos: "0 < ?N" using assms by (simp add: word_sless_alt)
  have nlt: "?N < 2 ^ 31" using sint_lt [of n] by simp
  have n0: "n \<noteq> 0" using npos by auto
  have abs: "\<bar>?N\<bar> = ?N" using npos by simp
  have m: "0 \<le> \<bar>?a\<bar> mod ?N" "\<bar>?a\<bar> mod ?N < ?N"
    using npos by simp_all
  have vb: "- (2 ^ 31) \<le> v" "v < 2 ^ 31"
    using m nlt by (auto simp: v_def sgn_if)
  have sv: "sint (word_of_int v :: int32) = v"
    using vb by (rule sint_small32)
  have rem: "go_rem (ucast (hashFn key)) n = Inr (word_of_int v)"
    using n0 by (simp add: go_rem_def abs v_def)
  have res: "SaramaHasher hashFn key n
      = Inr (if (word_of_int v :: int32) <s 0 then - word_of_int v else word_of_int v)"
    by (simp only: SaramaHasher_def rem sum.case)
  have neg: "(word_of_int v :: int32) <s 0 \<longleftrightarrow> v < 0"
    by (simp add: word_sless_alt sv)
  show ?thesis
  proof (cases "v < 0")
    case True
    then have "- v = \<bar>?a\<bar> mod ?N" using m by (auto simp: v_def sgn_if split: if_splits)
    then have "word_of_int (- v) = (word_of_int (\<bar>?a\<bar> mod ?N) :: int32)"
      by simp
    then have "- (word_of_int v :: int32) = word_of_int (\<bar>?a\<bar> mod ?N)"
      by (metis wi_hom_neg)
    with True show ?thesis by (simp only: res neg if_True)
  next
    case False
    then have eq: "v = \<bar>?a\<bar> mod ?N" using m by (auto simp: v_def sgn_if split: if_splits)
    from False have "SaramaHasher hashFn key n = Inr (word_of_int v)"
      by (simp only: res neg if_False)
    then show ?thesis by (simp only: eq)
  qed
qed



text \<open>
  Claim C10 at the failing input.  With a 64-bit \<open>int\<close>, \<open>int(hashFn(key))\<close> is never
  negative, so the sign flip never happens: for the hash \<open>0x80000001\<close> and \<open>n = 3\<close> the
  result is \<open>2147483649 mod 3 = 0\<close>, where the absolute value of the hash read as a signed
  32-bit integer gives \<open>2147483647 mod 3 = 1\<close>.
\<close>

theorem SaramaHasher_no_sign_flip:
  "SaramaHasher (\<lambda>_. 0x80000001) key (3 :: go_int) = Inr 0 \<and>
   \<bar>sint (0x80000001 :: uint32)\<bar> mod 3 = 1"
  by (simp add: SaramaHasher_def go_rem_def)



section \<open>Verification of the batch encoder\<close>

subsection \<open>The append primitives\<close>

lemma be32_roundtrip:
  fixes v :: int32
  shows "push_bit 24 (ucast (ucast (drop_bit 24 v) :: byte)) OR
         push_bit 16 (ucast (ucast (drop_bit 16 v) :: byte)) OR
         push_bit 8 (ucast (ucast (drop_bit 8 v) :: byte)) OR ucast (ucast v :: byte) = v"
proof (rule bit_word_eqI)
  fix n :: nat
  assume "n < LENGTH(32)"
  then consider "n < 8" | "8 \<le> n" "n < 16" | "16 \<le> n" "n < 24" | "24 \<le> n" "n < 32"
    by fastforce
  then show "bit (push_bit 24 (ucast (ucast (drop_bit 24 v) :: byte)) OR
         push_bit 16 (ucast (ucast (drop_bit 16 v) :: byte)) OR
         push_bit 8 (ucast (ucast (drop_bit 8 v) :: byte)) OR (ucast (ucast v :: byte) :: int32)) n = bit v n"
    by cases (auto simp: bit_simps)
qed

lemma be16_roundtrip:
  fixes v :: int16
  shows "push_bit 8 (ucast (ucast (drop_bit 8 v) :: byte)) OR ucast (ucast v :: byte) = v"
proof (rule bit_word_eqI)
  fix n :: nat
  assume "n < LENGTH(16)"
  then consider "n < 8" | "8 \<le> n" "n < 16"
    by fastforce
  then show "bit (push_bit 8 (ucast (ucast (drop_bit 8 v) :: byte)) OR (ucast (ucast v :: byte) :: int16)) n = bit v n"
    by cases (auto simp: bit_simps)
qed

lemma length_be16 [simp]: "length (be16 v) = 2"
  by (simp add: be16_def AppendInt16_def)

lemma length_be32 [simp]: "length (be32 v) = 4"
  by (simp add: be32_def AppendInt32_def)

lemma length_be64 [simp]: "length (be64 v) = 8"
  by (simp add: be64_def AppendInt64_def)

lemma AppendInt8_eq: "AppendInt8 dst v = dst @ [v]"
  by (simp add: AppendInt8_def)

lemma AppendInt16_eq: "AppendInt16 dst v = dst @ be16 v"
  by (simp add: be16_def AppendInt16_def)

lemma AppendInt32_eq: "AppendInt32 dst v = dst @ be32 v"
  by (simp add: be32_def AppendInt32_def)

lemma AppendInt64_eq: "AppendInt64 dst v = dst @ be64 v"
  by (simp add: be64_def AppendInt64_def)

lemma AppendArrayLen_eq: "AppendArrayLen dst l = dst @ be32 (word_of_nat l)"
  by (simp add: AppendArrayLen_def AppendInt32_eq)

lemma readInt32_be32: "length pre = at \<Longrightarrow> readInt32 (pre @ be32 v @ rest) at = v"
  unfolding readInt32_def be32_def AppendInt32_def
  by (auto simp add: nth_append be32_roundtrip)

lemma readInt16_be16: "length pre = at \<Longrightarrow> readInt16 (pre @ be16 v @ rest) at = v"
  unfolding readInt16_def be16_def AppendInt16_def
  by (auto simp add: nth_append be16_roundtrip)

lemma AppendUvarint_eq: "AppendUvarint dst u = dst @ AppendUvarint [] u"
proof (induction "unat u" arbitrary: u dst rule: less_induct)
  case less
  show ?case
  proof (cases "u < 0x80")
    case True
    then show ?thesis by (simp add: AppendUvarint.simps [of _ u])
  next
    case False
    let ?b = "ucast (u AND 0x7f) OR 0x80 :: byte"
    let ?u = "drop_bit 7 u"
    from False have "0 < unat u" by (simp add: word_less_nat_alt)
    then have "unat u div 2 ^ 7 < unat u" by simp
    then have dec: "unat ?u < unat u" by (simp add: drop_bit_eq_div unat_div)
    have "AppendUvarint dst u = AppendUvarint (dst @ [?b]) ?u"
      using False by (simp add: AppendUvarint.simps [of dst u])
    also have "\<dots> = (dst @ [?b]) @ AppendUvarint [] ?u"
      using dec by (rule less)
    also have "\<dots> = dst @ ([?b] @ AppendUvarint [] ?u)" by simp
    also have "[?b] @ AppendUvarint [] ?u = AppendUvarint [?b] ?u"
      using less [OF dec, of "[?b]"] by simp
    also have "AppendUvarint [?b] ?u = AppendUvarint [] u"
      using False by (simp add: AppendUvarint.simps [of "[]" u])
    finally show ?thesis .
  qed
qed

lemma AppendVarint_eq: "AppendVarint dst i = dst @ AppendVarint [] i"
  unfolding AppendVarint_def by (rule AppendUvarint_eq)

lemma AppendVarintString_eq: "AppendVarintString dst s = dst @ AppendVarintString [] s"
  unfolding AppendVarintString_def by (simp add: AppendVarint_eq [of dst])

lemma AppendVarintBytes_eq: "AppendVarintBytes dst b = dst @ AppendVarintBytes [] b"
  unfolding AppendVarintBytes_def by (simp add: AppendVarint_eq [of dst] split: option.splits)

lemma fold_headers_eq:
  "fold (\<lambda>h dst. AppendVarintBytes (AppendVarintString dst (hdr_Key h)) (hdr_Value h)) hs dst
     = dst @ fold (\<lambda>h dst. AppendVarintBytes (AppendVarintString dst (hdr_Key h)) (hdr_Value h)) hs []"
proof (induction hs arbitrary: dst)
  case Nil
  show ?case by simp
next
  case (Cons h hs)
  let ?f = "\<lambda>h dst. AppendVarintBytes (AppendVarintString dst (hdr_Key h)) (hdr_Value h)"
  have step: "?f h dst = dst @ ?f h []"
    by (metis AppendVarintBytes_eq AppendVarintString_eq append.assoc)
  have "fold ?f (h # hs) dst = fold ?f hs (dst @ ?f h [])"
    using step by simp
  also have "\<dots> = (dst @ ?f h []) @ fold ?f hs []" by (rule Cons.IH)
  also have "\<dots> = dst @ (?f h [] @ fold ?f hs [])" by simp
  also have "?f h [] @ fold ?f hs [] = fold ?f hs (?f h [])" by (rule Cons.IH [symmetric])
  finally show ?case by simp
qed

lemma pnr_appendTo_bytes:
  "pnr_appendTo pnr dst =
     dst @ AppendVarint [] (lengthField pnr) @ [0] @
     AppendVarint [] (timestampDelta pnr) @ AppendVarint [] (offsetDelta pnr) @
     AppendVarintBytes [] (rec_Key (pr_r pnr)) @ AppendVarintBytes [] (rec_Value (pr_r pnr)) @
     AppendVarint [] (word_of_nat (length (rec_Headers (pr_r pnr)))) @
     fold (\<lambda>h dst. AppendVarintBytes (AppendVarintString dst (hdr_Key h)) (hdr_Value h))
       (rec_Headers (pr_r pnr)) []"
proof -
  let ?A1 = "AppendVarint [] (lengthField pnr)"
  let ?A3 = "AppendVarint [] (timestampDelta pnr)"
  let ?A4 = "AppendVarint [] (offsetDelta pnr)"
  let ?A5 = "AppendVarintBytes [] (rec_Key (pr_r pnr))"
  let ?A6 = "AppendVarintBytes [] (rec_Value (pr_r pnr))"
  let ?A7 = "AppendVarint [] (word_of_nat (length (rec_Headers (pr_r pnr))))"
  have e1: "AppendVarint dst (lengthField pnr) = dst @ ?A1"
    by (rule AppendVarint_eq)
  have e2: "AppendInt8 (dst @ ?A1) 0 = dst @ ?A1 @ [0]"
    by (simp add: AppendInt8_def)
  have e3: "AppendVarint (dst @ ?A1 @ [0]) (timestampDelta pnr) = dst @ ?A1 @ [0] @ ?A3"
    using AppendVarint_eq [of "dst @ ?A1 @ [0]"] by simp
  have e4: "AppendVarint (dst @ ?A1 @ [0] @ ?A3) (offsetDelta pnr) = dst @ ?A1 @ [0] @ ?A3 @ ?A4"
    using AppendVarint_eq [of "dst @ ?A1 @ [0] @ ?A3"] by simp
  have e5: "AppendVarintBytes (dst @ ?A1 @ [0] @ ?A3 @ ?A4) (rec_Key (pr_r pnr))
              = dst @ ?A1 @ [0] @ ?A3 @ ?A4 @ ?A5"
    using AppendVarintBytes_eq [of "dst @ ?A1 @ [0] @ ?A3 @ ?A4"] by simp
  have e6: "AppendVarintBytes (dst @ ?A1 @ [0] @ ?A3 @ ?A4 @ ?A5) (rec_Value (pr_r pnr))
              = dst @ ?A1 @ [0] @ ?A3 @ ?A4 @ ?A5 @ ?A6"
    using AppendVarintBytes_eq [of "dst @ ?A1 @ [0] @ ?A3 @ ?A4 @ ?A5"] by simp
  have e7: "AppendVarint (dst @ ?A1 @ [0] @ ?A3 @ ?A4 @ ?A5 @ ?A6)
                (word_of_nat (length (rec_Headers (pr_r pnr))))
              = dst @ ?A1 @ [0] @ ?A3 @ ?A4 @ ?A5 @ ?A6 @ ?A7"
    using AppendVarint_eq [of "dst @ ?A1 @ [0] @ ?A3 @ ?A4 @ ?A5 @ ?A6"] by simp
  show ?thesis
    unfolding pnr_appendTo_def Let_def e1 e2 e3 e4 e5 e6 e7
    by (subst fold_headers_eq) simp
qed

lemma pnr_appendTo_eq: "pnr_appendTo pnr dst = dst @ pnr_appendTo pnr []"
  using pnr_appendTo_bytes [of pnr dst] pnr_appendTo_bytes [of pnr "[]"] by simp

lemma fold_pnr_appendTo_eq: "fold pnr_appendTo rs dst = dst @ fold pnr_appendTo rs []"
proof (induction rs arbitrary: dst)
  case Nil
  show ?case by simp
next
  case (Cons p rs)
  have "fold pnr_appendTo (p # rs) dst = fold pnr_appendTo rs (dst @ pnr_appendTo p [])"
    using pnr_appendTo_eq [of p dst] by simp
  also have "\<dots> = (dst @ pnr_appendTo p []) @ fold pnr_appendTo rs []" by (rule Cons.IH)
  also have "\<dots> = dst @ (pnr_appendTo p [] @ fold pnr_appendTo rs [])" by simp
  also have "pnr_appendTo p [] @ fold pnr_appendTo rs [] = fold pnr_appendTo rs (pnr_appendTo p [])"
    by (rule Cons.IH [symmetric])
  finally show ?case by simp
qed

subsection \<open>The encoder against the layout\<close>

lemma fold_records_eq: "fold pnr_appendTo (records r) dst = dst @ recordRegion r"
  unfolding recordRegion_def by (rule fold_pnr_appendTo_eq)

lemma appendTo_uncompressed:
  assumes "records r \<noteq> []"
  shows "appendTo r dst None
           = Inr (batchLayout r dst (wireLength r - 4) (wireLength r - 4 - 8 - 4) (attrs r) (recordRegion r))"
  using assms
  unfolding appendTo_def Let_def patchInt32_def batchLayout_def checkedRegion_def
    AppendInt8_eq AppendInt16_eq AppendInt32_eq AppendInt64_eq AppendArrayLen_eq fold_records_eq
  by simp

lemma appendTo_compressed:
  assumes "records r \<noteq> []"
    and "compress c (recordRegion r) = Some compressed"
    and "length compressed < length (recordRegion r)"
  shows "appendTo r dst (Some c)
           = Inr (batchLayout r dst
                    (wireLength r - 4 - word_of_nat (length (recordRegion r) - length compressed))
                    (wireLength r - 4 - 8 - 4 - word_of_nat (length (recordRegion r) - length compressed))
                    (attrs r OR scast (compressor_attrs c)) compressed)"
  using assms
  unfolding appendTo_def Let_def patchInt32_def patchInt16_def batchLayout_def checkedRegion_def
    AppendInt8_eq AppendInt16_eq AppendInt32_eq AppendInt64_eq AppendArrayLen_eq fold_records_eq
  by simp

lemma appendTo_fallback:
  assumes "compress c (recordRegion r) = None \<or>
           (\<exists>compressed. compress c (recordRegion r) = Some compressed \<and>
              \<not> length compressed < length (recordRegion r))"
  shows "appendTo r dst (Some c) = appendTo r dst None"
  using assms
  unfolding appendTo_def Let_def
    AppendInt8_eq AppendInt16_eq AppendInt32_eq AppendInt64_eq AppendArrayLen_eq fold_records_eq
  by auto

lemma appendTo_layout:
  assumes "records r \<noteq> []"
  shows "appendTo r dst compressor =
     Inr (case compressedRegion r compressor of
            None \<Rightarrow> batchLayout r dst (wireLength r - 4) (wireLength r - 4 - 8 - 4) (attrs r)
                      (recordRegion r)
          | Some compressed \<Rightarrow>
              batchLayout r dst
                (wireLength r - 4 - word_of_nat (length (recordRegion r) - length compressed))
                (wireLength r - 4 - 8 - 4 - word_of_nat (length (recordRegion r) - length compressed))
                (attrs r OR scast (compressor_attrs (the compressor))) compressed)"
proof (cases compressor)
  case None
  then show ?thesis
    using appendTo_uncompressed [OF assms] by (simp add: compressedRegion_def)
next
  case (Some c)
  show ?thesis
  proof (cases "compress c (recordRegion r)")
    case None
    then have "appendTo r dst (Some c) = appendTo r dst None"
      by (intro appendTo_fallback) simp
    with None Some show ?thesis
      using appendTo_uncompressed [OF assms] by (simp add: compressedRegion_def)
  next
    case z: (Some compressed)
    show ?thesis
    proof (cases "length compressed < length (recordRegion r)")
      case True
      with z Some show ?thesis
        using appendTo_compressed [OF assms z True] by (simp add: compressedRegion_def)
    next
      case False
      with z have "appendTo r dst (Some c) = appendTo r dst None"
        by (intro appendTo_fallback) simp
      with False z Some show ?thesis
        using appendTo_uncompressed [OF assms] by (simp add: compressedRegion_def)
    qed
  qed
qed

lemma batchLayout_crc:
  "readInt32 (batchLayout r dst outerLen batchLen a region) (length dst + 21)
     = Checksum (drop (length dst + 25) (batchLayout r dst outerLen batchLen a region)) crc32c"
proof -
  let ?pre = "dst @ be32 outerLen @ be64 0 @ be32 batchLen @ be32 (- 1) @ [2]"
  let ?crc = "Checksum (checkedRegion r a region) crc32c"
  have l: "batchLayout r dst outerLen batchLen a region = ?pre @ be32 ?crc @ checkedRegion r a region"
    by (simp add: batchLayout_def)
  have len: "length ?pre = length dst + 21" by simp
  have "readInt32 (?pre @ be32 ?crc @ checkedRegion r a region) (length dst + 21) = ?crc"
    using len by (rule readInt32_be32)
  moreover have "drop (length dst + 25) (?pre @ be32 ?crc @ checkedRegion r a region)
                   = checkedRegion r a region"
    by simp
  ultimately show ?thesis by (simp only: l)
qed

lemma batchLayout_fields:
  "readInt32 (batchLayout r dst outerLen batchLen a region) (length dst) = outerLen"
  "readInt32 (batchLayout r dst outerLen batchLen a region) (length dst + 12) = batchLen"
  "readInt16 (batchLayout r dst outerLen batchLen a region) (length dst + 25) = a"
  "readInt32 (batchLayout r dst outerLen batchLen a region) (length dst + 27)
     = word_of_int (int (length (records r)) - 1)"
  "readInt32 (batchLayout r dst outerLen batchLen a region) (length dst + 61)
     = word_of_nat (length (records r))"
proof -
  let ?crc = "Checksum (checkedRegion r a region) crc32c"
  show "readInt32 (batchLayout r dst outerLen batchLen a region) (length dst) = outerLen"
    unfolding batchLayout_def by (rule readInt32_be32) simp
  have "readInt32 ((dst @ be32 outerLen @ be64 0) @ be32 batchLen @
           (be32 (- 1) @ [2] @ be32 ?crc @ checkedRegion r a region)) (length dst + 12) = batchLen"
    by (rule readInt32_be32) simp
  then show "readInt32 (batchLayout r dst outerLen batchLen a region) (length dst + 12) = batchLen"
    by (simp add: batchLayout_def)
  let ?pre = "dst @ be32 outerLen @ be64 0 @ be32 batchLen @ be32 (- 1) @ [2] @ be32 ?crc"
  have "readInt16 (?pre @ be16 a @ drop 2 (checkedRegion r a region)) (length dst + 25) = a"
    by (rule readInt16_be16) simp
  then show "readInt16 (batchLayout r dst outerLen batchLen a region) (length dst + 25) = a"
    by (simp add: batchLayout_def checkedRegion_def)
  have "readInt32 ((?pre @ be16 a) @ be32 (word_of_int (int (length (records r)) - 1)) @
           drop 6 (checkedRegion r a region)) (length dst + 27)
          = word_of_int (int (length (records r)) - 1)"
    by (rule readInt32_be32) simp
  then show "readInt32 (batchLayout r dst outerLen batchLen a region) (length dst + 27)
     = word_of_int (int (length (records r)) - 1)"
    by (simp add: batchLayout_def checkedRegion_def)
  have "readInt32 ((?pre @ take 36 (checkedRegion r a region)) @
           be32 (word_of_nat (length (records r))) @ region) (length dst + 61)
          = word_of_nat (length (records r))"
    by (rule readInt32_be32) (simp add: checkedRegion_def)
  then show "readInt32 (batchLayout r dst outerLen batchLen a region) (length dst + 61)
     = word_of_nat (length (records r))"
    by (simp add: batchLayout_def checkedRegion_def)
qed


lemma recordRegion_example:
  "recordRegion exampleBatch = [30, 0, 0, 0, 2, 1, 16, 0, 0, 0, 0, 0, 0, 0, 0, 0]"
  by (simp add: recordRegion_def exampleBatch_def pnr_appendTo_def AppendVarint_def
      AppendVarintBytes_def AppendInt8_def AppendUvarint.simps)

lemma sint_word_of_nat_32:
  assumes "n < 2 ^ 31"
  shows "sint (word_of_nat n :: int32) = int n"
proof -
  have "sint (word_of_nat n :: int32) = signed_take_bit 31 (int n)"
    by (simp add: signed_of_nat)
  also have "\<dots> = int n"
    using assms by (intro signed_take_bit_int_eq_self) simp_all
  finally show ?thesis .
qed

lemma sint_word_of_nat_pred_32:
  assumes "0 < n" "n < 2 ^ 31"
  shows "sint (word_of_nat n - 1 :: int32) = int n - 1"
proof -
  have "(word_of_nat n - 1 :: int32) = word_of_nat (n - 1)"
    using assms(1) by (simp add: of_nat_diff)
  moreover have "n - 1 < 2 ^ 31" using assms(2) by simp
  ultimately show ?thesis
    using sint_word_of_nat_32 [of "n - 1"] assms(1) by (simp add: of_nat_diff)
qed

lemma word_of_int_pred_32:
  "0 < n \<Longrightarrow> (word_of_int (int n - 1) :: int32) = word_of_nat n - 1"
  by simp

subsection \<open>The claims about the encoded batch\<close>

text \<open>
  Claim C1.  For every batch with at least one record, every buffer and every compressor
  (none, one that is used, one whose output is rejected), \<open>appendTo\<close> returns, and in the
  bytes it returns the checksum field, the four bytes at offset 21 of the entry, is the
  CRC-32C of all the bytes after it, from offset 25 to the end.
\<close>

theorem appendTo_checksum_roundtrip:
  assumes "records r \<noteq> []"
  shows "\<exists>out. appendTo r dst compressor = Inr out \<and>
           readInt32 out (length dst + 21) = Checksum (drop (length dst + 25) out) crc32c"
  unfolding appendTo_layout [OF assms]
  by (cases "compressedRegion r compressor") (simp_all add: batchLayout_crc)


text \<open>The example batch, without a compressor and with one whose output is used.\<close>

theorem appendTo_checksum_roundtrip_witness:
  "records exampleBatch \<noteq> [] \<and>
   compressedRegion exampleBatch None = None \<and>
   compressedRegion exampleBatch (Some shrinkingCompressor) = Some [30, 0, 0, 0] \<and>
   (\<exists>out. appendTo exampleBatch [] None = Inr out \<and>
      readInt32 out 21 = Checksum (drop 25 out) crc32c) \<and>
   (\<exists>out. appendTo exampleBatch [] (Some shrinkingCompressor) = Inr out \<and>
      readInt32 out 21 = Checksum (drop 25 out) crc32c)"
proof -
  have ne: "records exampleBatch \<noteq> []" by (simp add: exampleBatch_def)
  have c: "compressedRegion exampleBatch (Some shrinkingCompressor) = Some [30, 0, 0, 0]"
    by (simp add: compressedRegion_def shrinkingCompressor_def recordRegion_example)
  show ?thesis
    using ne c appendTo_checksum_roundtrip [OF ne, of "[]" None]
      appendTo_checksum_roundtrip [OF ne, of "[]" "Some shrinkingCompressor"]
    by (simp add: compressedRegion_def)
qed


text \<open>
  Claim C2.  For every batch with \<open>N \<ge> 1\<close> records and either outcome of compression,
  in the bytes \<open>appendTo\<close> returns the outer length (offset 0 of the entry) is the batch
  length (offset 12) plus 12, the record count (offset 61) is \<open>N\<close> and the last offset
  delta (offset 27) is \<open>N - 1\<close>, as 32-bit integers; read as signed integers the last two
  are the numbers \<open>N\<close> and \<open>N - 1\<close> whenever \<open>N\<close> fits in an \<open>int32\<close>.  Both length
  fields are the values computed from \<open>wireLength\<close>, less the same savings when the
  compressed bytes are used.
\<close>

theorem appendTo_length_fields:
  assumes "records r \<noteq> []"
  shows "\<exists>out. appendTo r dst compressor = Inr out \<and>
           readInt32 out (length dst) = readInt32 out (length dst + 12) + 12 \<and>
           readInt32 out (length dst + 61) = word_of_nat (length (records r)) \<and>
           readInt32 out (length dst + 27) = word_of_nat (length (records r)) - 1 \<and>
           (length (records r) < 2 ^ 31 \<longrightarrow>
              sint (readInt32 out (length dst + 61)) = int (length (records r)) \<and>
              sint (readInt32 out (length dst + 27)) = int (length (records r)) - 1) \<and>
           (case compressedRegion r compressor of
              None \<Rightarrow>
                readInt32 out (length dst) = wireLength r - 4 \<and>
                readInt32 out (length dst + 12) = wireLength r - 4 - 8 - 4
            | Some compressed \<Rightarrow>
                readInt32 out (length dst)
                  = wireLength r - 4 - word_of_nat (length (recordRegion r) - length compressed) \<and>
                readInt32 out (length dst + 12)
                  = wireLength r - 4 - 8 - 4
                      - word_of_nat (length (recordRegion r) - length compressed))"
proof -
  have pos: "0 < length (records r)" using assms by simp
  have lod: "(word_of_int (int (length (records r)) - 1) :: int32)
               = word_of_nat (length (records r)) - 1"
    using pos by (rule word_of_int_pred_32)
  show ?thesis
    unfolding appendTo_layout [OF assms]
    using pos
    by (cases "compressedRegion r compressor")
      (simp_all add: batchLayout_fields lod sint_word_of_nat_32 sint_word_of_nat_pred_32)
qed


text \<open>
  The example batch with the compressor whose output is used: 12 bytes are saved, the
  lengths are 65 and 53, the count is 1 and the last offset delta is 0.
\<close>

theorem appendTo_length_fields_witness:
  "records exampleBatch \<noteq> [] \<and>
   (\<exists>out. appendTo exampleBatch [] (Some shrinkingCompressor) = Inr out \<and>
      readInt32 out 0 = 65 \<and> readInt32 out 12 = 53 \<and> readInt32 out 61 = 1 \<and>
      readInt32 out 27 = 0)"
proof -
  have ne: "records exampleBatch \<noteq> []" by (simp add: exampleBatch_def)
  have c: "compressedRegion exampleBatch (Some shrinkingCompressor) = Some [30, 0, 0, 0]"
    by (simp add: compressedRegion_def shrinkingCompressor_def recordRegion_example)
  have l: "length (records exampleBatch) = 1" "wireLength exampleBatch = 81"
    by (simp_all add: exampleBatch_def)
  show ?thesis
    using ne appendTo_length_fields [OF ne, of "[]" "Some shrinkingCompressor"]
    by (auto simp add: c l recordRegion_example)
qed





section \<open>Verification of the assignment engine\<close>

subsection \<open>Folds over maps, key by key\<close>

lemma fold_keywise:
  assumes "distinct (map fst xs)"
    and step: "\<And>k v acc t. map_of (g (k, v) acc) t
                 = (if t = k then h k v (map_of acc k) else map_of acc t)"
  shows "map_of (fold g xs acc) t
           = (case map_of xs t of None \<Rightarrow> map_of acc t | Some v \<Rightarrow> h t v (map_of acc t))"
  using assms(1)
proof (induction xs arbitrary: acc)
  case Nil
  show ?case by simp
next
  case (Cons x xs)
  obtain k v where x: "x = (k, v)" by (cases x)
  from Cons.prems x have d: "distinct (map fst xs)" and k: "k \<notin> fst ` set xs" by auto
  from k have none: "map_of xs k = None" by (simp add: map_of_eq_None_iff)
  have "map_of (fold g (x # xs) acc) t = map_of (fold g xs (g (k, v) acc)) t"
    by (simp add: x)
  also have "\<dots> = (case map_of xs t of None \<Rightarrow> map_of (g (k, v) acc) t
                     | Some v' \<Rightarrow> h t v' (map_of (g (k, v) acc) t))"
    by (rule Cons.IH [OF d])
  also have "\<dots> = (case map_of (x # xs) t of None \<Rightarrow> map_of acc t
                     | Some v' \<Rightarrow> h t v' (map_of acc t))"
    using none by (auto simp: x step split: option.splits)
  finally show ?case .
qed

lemma fold_keys_distinct:
  assumes "\<And>x acc. distinct (map fst acc) \<Longrightarrow> distinct (map fst (g x acc))"
    and "distinct (map fst acc)"
  shows "distinct (map fst (fold g xs acc))"
  using assms(2) by (induction xs arbitrary: acc) (simp_all add: assms(1))

lemma matchTopics_calls_topic:
  "(pat, t) \<in> set (snd (matchTopics match topic xs)) \<Longrightarrow> t = topic"
  by (induction xs) (auto split: if_splits prod.splits)

lemma lookupTopic_unchanged:
  assumes "lookupTopic match order d topic = (use, d', calls)"
  shows "topics d' = topics d" "partitions d' = partitions d" "regexTopics d' = regexTopics d"
    "usingSet d' = usingSet d"
  using assms
  by (auto simp: lookupTopic_def split: if_splits option.splits prod.splits)

lemma lookupTopic_caches:
  assumes "lookupTopic match order d topic = (use, d', calls)"
  shows "t \<noteq> topic \<Longrightarrow> map_of (reTopics d') t = map_of (reTopics d) t"
    and "t \<noteq> topic \<Longrightarrow> t \<in> set (reIgnore d') \<longleftrightarrow> t \<in> set (reIgnore d)"
    and "map_of (reTopics d) t = Some off \<Longrightarrow> map_of (reTopics d') t = Some off"
    and "t \<in> set (reIgnore d) \<Longrightarrow> t \<in> set (reIgnore d')"
  using assms
  by (auto simp: lookupTopic_def AList.update_conv' split: if_splits option.splits prod.splits)

lemma lookupTopic_wf:
  assumes "lookupTopic match order d topic = (use, d', calls)" and "wf_directConsumer d"
  shows "wf_directConsumer d'"
  using assms
  by (auto simp: lookupTopic_def wf_directConsumer_def AList.distinct_update
      split: if_splits option.splits prod.splits)


lemma stageTopic_eq:
  "stageTopic match order (topic, parts) (d, toUse, calls) =
     (fst (snd (lookupTopic match order d topic)),
      stagePartitions (fst (lookupTopic match order d topic)) (pinsOf d topic) topic parts toUse,
      calls @ snd (snd (lookupTopic match order d topic)))"
  by (simp add: stageTopic_def split: prod.splits)

lemma stage_fold_unchanged:
  assumes "fold (stageTopic match order) topology (d, toUse, calls) = (d', toUse', calls')"
  shows "topics d' = topics d \<and> partitions d' = partitions d \<and>
         regexTopics d' = regexTopics d \<and> usingSet d' = usingSet d \<and>
         (wf_directConsumer d \<longrightarrow> wf_directConsumer d') \<and>
         (\<forall>t off. map_of (reTopics d) t = Some off \<longrightarrow> map_of (reTopics d') t = Some off) \<and>
         (\<forall>t. t \<in> set (reIgnore d) \<longrightarrow> t \<in> set (reIgnore d'))"
  using assms
proof (induction topology arbitrary: d toUse calls)
  case Nil
  then show ?case by simp
next
  case (Cons tp topology)
  obtain topic parts where tp: "tp = (topic, parts)" by (cases tp)
  obtain use d1 c1 where l: "lookupTopic match order d topic = (use, d1, c1)"
    by (cases "lookupTopic match order d topic")
  have "fold (stageTopic match order) topology
          (d1, stagePartitions use (pinsOf d topic) topic parts toUse, calls @ c1)
        = (d', toUse', calls')"
    using Cons.prems by (simp add: tp stageTopic_eq l)
  from Cons.IH [OF this] lookupTopic_unchanged [OF l] lookupTopic_wf [OF l]
    lookupTopic_caches(3,4) [OF l]
  show ?case by auto
qed

lemma map_of_fold_delete:
  "map_of (fold (\<lambda>partition m. AList.delete partition m) ps m) = map_of m |` (- set ps)"
proof (induction ps arbitrary: m)
  case Nil
  show ?case by simp
next
  case (Cons p ps)
  show ?case
    by (auto simp: Cons.IH AList.delete_conv' restrict_map_def fun_eq_iff)
qed

lemma distinct_fold_delete:
  "distinct (map fst m) \<Longrightarrow> distinct (map fst (fold (\<lambda>partition m. AList.delete partition m) ps m))"
  by (induction ps arbitrary: m) (simp_all add: AList.distinct_delete)

lemma removeUsing_map_of:
  assumes "distinct (map fst using)"
  shows "map_of (removeUsing using toUse) t =
     (case map_of using t of
        None \<Rightarrow> map_of toUse t
      | Some parts \<Rightarrow>
          (case map_of toUse t of
             None \<Rightarrow> None
           | Some m \<Rightarrow>
               if length parts = length m then None
               else Some (fold (\<lambda>partition m. AList.delete partition m) parts m)))"
  unfolding removeUsing_def
  by (subst fold_keywise [OF assms, where h = "\<lambda>k parts mo. case mo of None \<Rightarrow> None
             | Some m \<Rightarrow> if length parts = length m then None
                 else Some (fold (\<lambda>partition m. AList.delete partition m) parts m)"])
    (auto simp: AList.delete_conv' AList.update_conv' split: option.splits)

lemma removeUsing_distinct:
  "distinct (map fst toUse) \<Longrightarrow> distinct (map fst (removeUsing using toUse))"
  unfolding removeUsing_def
  by (rule fold_keys_distinct)
    (auto simp: AList.distinct_delete AList.distinct_update split: option.splits)

lemma set_fold_insert:
  "set (fold (\<lambda>(partition, offset) u. List.insert partition u) parts u) = set u \<union> fst ` set parts"
  by (induction parts arbitrary: u) auto

lemma distinct_fold_insert:
  "distinct u \<Longrightarrow> distinct (fold (\<lambda>(partition, offset) u. List.insert partition u) parts u)"
  by (induction parts arbitrary: u) auto

lemma addUsing_map_of:
  assumes "distinct (map fst toUse)"
  shows "map_of (addUsing toUse using) t =
     (case map_of toUse t of
        None \<Rightarrow> map_of using t
      | Some parts \<Rightarrow>
          Some (fold (\<lambda>(partition, offset) u. List.insert partition u) parts
                  (case map_of using t of None \<Rightarrow> [] | Some u \<Rightarrow> u)))"
  unfolding addUsing_def
  by (subst fold_keywise [OF assms, where h = "\<lambda>k parts mo.
          Some (fold (\<lambda>(partition, offset) u. List.insert partition u) parts
                  (case mo of None \<Rightarrow> [] | Some u \<Rightarrow> u))"])
    (auto simp: AList.update_conv' Let_def split: option.splits)

subsection \<open>The invariants of the representation are kept\<close>

lemma stagePartitions_distinct:
  assumes "distinct (map fst toUse)"
  shows "distinct (map fst (stagePartitions use pins topic parts toUse))"
proof -
  have "distinct (map fst (fold (\<lambda>(partition, offset) toUse.
                 let toUseTopic = (case map_of toUse topic of None \<Rightarrow> [] | Some m \<Rightarrow> m)
                 in AList.update topic (AList.update partition offset toUseTopic) toUse)
           pins acc))" if "distinct (map fst acc)" for acc
    using that by (intro fold_keys_distinct) (auto simp: Let_def AList.distinct_update)
  then show ?thesis
    using assms by (auto simp: stagePartitions_def Let_def AList.distinct_update split: option.splits)
qed

lemma stage_fold_distinct:
  assumes "fold (stageTopic match order) topology (d, toUse, calls) = (d', toUse', calls')"
    and "distinct (map fst toUse)"
  shows "distinct (map fst toUse')"
  using assms
proof (induction topology arbitrary: d toUse calls)
  case Nil
  then show ?case by simp
next
  case (Cons tp topology)
  obtain topic parts where tp: "tp = (topic, parts)" by (cases tp)
  have "fold (stageTopic match order) topology
          (fst (snd (lookupTopic match order d topic)),
           stagePartitions (fst (lookupTopic match order d topic)) (pinsOf d topic) topic parts toUse,
           calls @ snd (snd (lookupTopic match order d topic)))
        = (d', toUse', calls')"
    using Cons.prems(1) by (simp add: tp stageTopic_eq)
  then show ?case
    by (rule Cons.IH) (rule stagePartitions_distinct [OF Cons.prems(2)])
qed

lemma set_update_subset: "set (AList.update k v al) \<subseteq> insert (k, v) (set al)"
  by (induction al) auto

lemma addUsing_distinct:
  assumes "distinct (map fst using)"
  shows "distinct (map fst (addUsing toUse using))"
  unfolding addUsing_def
  by (rule fold_keys_distinct) (auto simp: Let_def AList.distinct_update assms)

lemma addUsing_members_distinct:
  assumes "list_all (\<lambda>(topic, ps). distinct ps) us"
  shows "list_all (\<lambda>(topic, ps). distinct ps) (addUsing toUse us)"
  unfolding addUsing_def
  using assms
proof (induction toUse arbitrary: us)
  case Nil
  then show ?case by simp
next
  case (Cons x toUse)
  obtain topic parts where x: "x = (topic, parts)" by (cases x)
  let ?u = "case map_of us topic of None \<Rightarrow> [] | Some u \<Rightarrow> u"
  let ?new = "fold (\<lambda>(partition, offset) u. List.insert partition u) parts ?u"
  have "distinct ?u"
    using Cons.prems by (auto simp: list_all_iff split: option.splits dest: map_of_SomeD)
  then have "distinct ?new" by (rule distinct_fold_insert)
  then have "list_all (\<lambda>(topic, ps). distinct ps) (AList.update topic ?new us)"
    using Cons.prems set_update_subset [of topic ?new us] by (auto simp: list_all_iff)
  from Cons.IH [OF this] show ?case by (simp add: x Let_def)
qed

lemma findNewAssignments_wf:
  assumes "findNewAssignments match order d topology = (delta, d', calls)"
    and "wf_directConsumer d"
  shows "wf_directConsumer d'"
proof -
  obtain d1 toUse c1 where f: "fold (stageTopic match order) topology (d, [], []) = (d1, toUse, c1)"
    by (cases "fold (stageTopic match order) topology (d, [], [])")
  from stage_fold_unchanged [OF f] assms(2) have wf1: "wf_directConsumer d1" by blast
  show ?thesis
  proof (cases "length (removeUsing (usingSet d1) toUse) = 0")
    case True
    with assms(1) f have "d' = d1" by (simp add: findNewAssignments_def Let_def)
    with wf1 show ?thesis by simp
  next
    case False
    with assms(1) f have d': "d' = d1\<lparr>usingSet := addUsing (removeUsing (usingSet d1) toUse) (usingSet d1)\<rparr>"
      by (simp add: findNewAssignments_def Let_def)
    from wf1 show ?thesis
      by (simp add: d' wf_directConsumer_def addUsing_distinct addUsing_members_distinct)
  qed
qed

lemma reconcileAll_wf:
  "wf_directConsumer d \<Longrightarrow> wf_directConsumer (reconcileAll cs d)"
proof (induction cs arbitrary: d)
  case Nil
  then show ?case by simp
next
  case (Cons c cs)
  obtain match order topology where c: "c = (match, order, topology)" by (cases c)
  have "wf_directConsumer (fst (snd (findNewAssignments match order d topology)))"
    using findNewAssignments_wf [OF _ Cons.prems, of match order topology]
    by (cases "findNewAssignments match order d topology") auto
  then show ?case by (simp add: c Cons.IH)
qed

subsection \<open>The using map only grows\<close>

lemma usingGrows_refl: "usingGrows d d"
  by (simp add: usingGrows_def)

lemma usingGrows_trans: "usingGrows d d' \<Longrightarrow> usingGrows d' d'' \<Longrightarrow> usingGrows d d''"
  unfolding usingGrows_def by (meson subset_trans)

lemma usingGrows_pairs: "usingGrows d d' \<Longrightarrow> usingPairs d \<subseteq> usingPairs d'"
  unfolding usingGrows_def usingPairs_def by blast

lemma findNewAssignments_cases:
  assumes "findNewAssignments match order d topology = (delta, d', calls)"
  obtains d1 staged where
    "fold (stageTopic match order) topology (d, [], []) = (d1, staged, calls)"
    "usingSet d1 = usingSet d"
    "distinct (map fst staged)"
    "removeUsing (usingSet d) staged = [] \<and> delta = None \<and> d' = d1 \<or>
     removeUsing (usingSet d) staged \<noteq> [] \<and> delta = Some (removeUsing (usingSet d) staged) \<and>
       d' = d1\<lparr>usingSet := addUsing (removeUsing (usingSet d) staged) (usingSet d)\<rparr>"
proof -
  obtain d1 staged c1 where f: "fold (stageTopic match order) topology (d, [], []) = (d1, staged, c1)"
    by (cases "fold (stageTopic match order) topology (d, [], [])")
  from stage_fold_unchanged [OF f] have u: "usingSet d1 = usingSet d" by blast
  have dist: "distinct (map fst staged)" using stage_fold_distinct [OF f] by simp
  have c: "c1 = calls"
    using assms f by (auto simp: findNewAssignments_def Let_def split: if_splits)
  have "removeUsing (usingSet d) staged = [] \<and> delta = None \<and> d' = d1 \<or>
     removeUsing (usingSet d) staged \<noteq> [] \<and> delta = Some (removeUsing (usingSet d) staged) \<and>
       d' = d1\<lparr>usingSet := addUsing (removeUsing (usingSet d) staged) (usingSet d)\<rparr>"
    using assms f u by (auto simp: findNewAssignments_def Let_def split: if_splits)
  with f u dist c show ?thesis using that by blast
qed

lemma findNewAssignments_usingGrows:
  assumes "findNewAssignments match order d topology = (delta, d', calls)"
  shows "usingGrows d d'"
proof -
  from assms obtain d1 staged where
    u: "usingSet d1 = usingSet d" and dist: "distinct (map fst staged)" and
    alt: "removeUsing (usingSet d) staged = [] \<and> delta = None \<and> d' = d1 \<or>
     removeUsing (usingSet d) staged \<noteq> [] \<and> delta = Some (removeUsing (usingSet d) staged) \<and>
       d' = d1\<lparr>usingSet := addUsing (removeUsing (usingSet d) staged) (usingSet d)\<rparr>"
    by (rule findNewAssignments_cases)
  from alt show ?thesis
  proof
    assume "removeUsing (usingSet d) staged = [] \<and> delta = None \<and> d' = d1"
    with u show ?thesis by (simp add: usingGrows_def)
  next
    assume a: "removeUsing (usingSet d) staged \<noteq> [] \<and> delta = Some (removeUsing (usingSet d) staged) \<and>
       d' = d1\<lparr>usingSet := addUsing (removeUsing (usingSet d) staged) (usingSet d)\<rparr>"
    have rd: "distinct (map fst (removeUsing (usingSet d) staged))"
      using dist by (rule removeUsing_distinct)
    show ?thesis
      unfolding usingGrows_def
      using a by (auto simp: addUsing_map_of [OF rd] set_fold_insert split: option.splits)
  qed
qed

lemma reconcileAll_usingGrows: "usingGrows d (reconcileAll cs d)"
proof (induction cs arbitrary: d)
  case Nil
  show ?case by (simp add: usingGrows_refl)
next
  case (Cons c cs)
  obtain match order topology where c: "c = (match, order, topology)" by (cases c)
  obtain delta d' tr where f: "findNewAssignments match order d topology = (delta, d', tr)"
    by (cases "findNewAssignments match order d topology")
  have "usingGrows d d'" using f by (rule findNewAssignments_usingGrows)
  moreover have "usingGrows d' (reconcileAll cs d')" by (rule Cons.IH)
  ultimately show ?case by (simp add: c f usingGrows_trans)
qed

lemma findNewAssignments_not_reoffered:
  assumes "findNewAssignments match order d topology = (delta, d', calls)"
    and "distinct (map fst (usingSet d))"
    and "(topic, p) \<in> usingPairs d"
  shows "offered delta topic p = None"
proof -
  from assms(1) obtain d1 staged where
    alt: "removeUsing (usingSet d) staged = [] \<and> delta = None \<and> d' = d1 \<or>
     removeUsing (usingSet d) staged \<noteq> [] \<and> delta = Some (removeUsing (usingSet d) staged) \<and>
       d' = d1\<lparr>usingSet := addUsing (removeUsing (usingSet d) staged) (usingSet d)\<rparr>"
    by (rule findNewAssignments_cases)
  from assms(3) obtain ps where ps: "map_of (usingSet d) topic = Some ps" "p \<in> set ps"
    by (auto simp: usingPairs_def)
  from alt show ?thesis
  proof
    assume "removeUsing (usingSet d) staged = [] \<and> delta = None \<and> d' = d1"
    then show ?thesis by (simp add: offered_def)
  next
    assume "removeUsing (usingSet d) staged \<noteq> [] \<and> delta = Some (removeUsing (usingSet d) staged) \<and>
       d' = d1\<lparr>usingSet := addUsing (removeUsing (usingSet d) staged) (usingSet d)\<rparr>"
    then show ?thesis
      using ps
      by (auto simp: offered_def removeUsing_map_of [OF assms(2)] map_of_fold_delete
          split: option.splits if_splits)
  qed
qed

subsection \<open>What is staged for a topic\<close>



lemma lookupTopic_other:
  assumes "lookupTopic match order d k = (use, d1, calls)" and "t \<noteq> k"
  shows "fst (lookupTopic match order d1 t) = fst (lookupTopic match order d t)"
    and "snd (snd (lookupTopic match order d1 t)) = snd (snd (lookupTopic match order d t))"
  using lookupTopic_unchanged [OF assms(1)] lookupTopic_caches(1,2) [OF assms(1) assms(2)]
  by (auto simp: lookupTopic_def split: option.splits prod.splits)












subsection \<open>The calls of the matcher and the memo caches\<close>

lemma matchTopics_found:
  "fst (matchTopics match topic xs) = map_option snd (find (\<lambda>(pat, off). match pat topic) xs)"
  by (induction match topic xs rule: matchTopics.induct) (auto split: prod.split)

lemma matchTopics_calls:
  "snd (matchTopics match topic xs)
     = map (\<lambda>(pat, off). (pat, topic))
         (takeWhile (\<lambda>(pat, off). \<not> match pat topic) xs @
          take 1 (dropWhile (\<lambda>(pat, off). \<not> match pat topic) xs))"
  by (induction match topic xs rule: matchTopics.induct) (auto split: prod.split)

lemma lookupTopic_calls_uncached:
  assumes "(pat, t) \<in> set (snd (snd (lookupTopic match order d k)))"
  shows "t = k \<and> regexTopics d \<and> map_of (reTopics d) k = None \<and> k \<notin> set (reIgnore d)"
  using assms matchTopics_calls_topic [of pat t match k "order k"]
  by (auto simp: lookupTopic_def split: if_splits option.splits prod.splits)

lemma lookupTopic_uncached:
  assumes "regexTopics d" "map_of (reTopics d) T = None" "T \<notin> set (reIgnore d)"
  shows "fst (lookupTopic match order d T) = fst (matchTopics match T (order T))"
    and "snd (snd (lookupTopic match order d T)) = snd (matchTopics match T (order T))"
    and "map_of (reTopics (fst (snd (lookupTopic match order d T)))) T
           = fst (matchTopics match T (order T))"
    and "T \<in> set (reIgnore (fst (snd (lookupTopic match order d T))))
           \<longleftrightarrow> fst (matchTopics match T (order T)) = None"
  using assms
  by (auto simp: lookupTopic_def AList.update_conv' split: option.splits prod.splits)

lemma lookupTopic_other_caches:
  assumes "lookupTopic match order d k = (use, d1, calls)" and "t \<noteq> k"
  shows "map_of (reTopics (fst (snd (lookupTopic match order d1 t)))) t
           = map_of (reTopics (fst (snd (lookupTopic match order d t)))) t"
    and "t \<in> set (reIgnore (fst (snd (lookupTopic match order d1 t))))
           \<longleftrightarrow> t \<in> set (reIgnore (fst (snd (lookupTopic match order d t))))"
  using lookupTopic_unchanged [OF assms(1)] lookupTopic_caches(1,2) [OF assms(1) assms(2)]
  by (auto simp: lookupTopic_def AList.update_conv' split: option.splits prod.splits)

lemma stage_fold_calls:
  assumes "fold (stageTopic match order) topology (d, toUse, calls) = (d', toUse', calls')"
    and "distinct (map fst topology)"
  shows "filter (\<lambda>(pat, t). t = T) calls'
           = filter (\<lambda>(pat, t). t = T) calls @
             (case map_of topology T of
                None \<Rightarrow> []
              | Some parts \<Rightarrow> snd (snd (lookupTopic match order d T)))"
  using assms
proof (induction topology arbitrary: d toUse calls)
  case Nil
  then show ?case by simp
next
  case (Cons tp topology)
  obtain k parts where tp: "tp = (k, parts)" by (cases tp)
  obtain use d1 c1 where l: "lookupTopic match order d k = (use, d1, c1)"
    by (cases "lookupTopic match order d k")
  from Cons.prems(2) tp have dist: "distinct (map fst topology)" and k: "k \<notin> fst ` set topology"
    by auto
  from k have none: "map_of topology k = None" by (simp add: map_of_eq_None_iff)
  have f: "fold (stageTopic match order) topology
             (d1, stagePartitions use (pinsOf d k) k parts toUse, calls @ c1) = (d', toUse', calls')"
    using Cons.prems(1) by (simp add: tp stageTopic_eq l)
  note IH = Cons.IH [OF f dist]
  have c1: "\<forall>(pat, t) \<in> set c1. t = k"
    using lookupTopic_calls_uncached [of _ _ match order d k] l by auto
  show ?case
  proof (cases "T = k")
    case True
    have "filter (\<lambda>(pat, t). t = k) c1 = c1"
      using c1 by (intro filter_True) auto
    with True IH none l show ?thesis by (simp add: tp)
  next
    case False
    have "filter (\<lambda>(pat, t). t = T) c1 = []"
      using c1 False by (auto simp: filter_empty_conv)
    with False IH lookupTopic_other(2) [OF l False] show ?thesis
      by (simp add: tp split: option.splits)
  qed
qed

lemma stage_fold_caches:
  assumes "fold (stageTopic match order) topology (d, toUse, calls) = (d', toUse', calls')"
    and "distinct (map fst topology)"
  shows "map_of (reTopics d') T
           = (case map_of topology T of
                None \<Rightarrow> map_of (reTopics d) T
              | Some parts \<Rightarrow> map_of (reTopics (fst (snd (lookupTopic match order d T)))) T) \<and>
         (T \<in> set (reIgnore d')
           \<longleftrightarrow> (case map_of topology T of
                None \<Rightarrow> T \<in> set (reIgnore d)
              | Some parts \<Rightarrow> T \<in> set (reIgnore (fst (snd (lookupTopic match order d T))))))"
  using assms
proof (induction topology arbitrary: d toUse calls)
  case Nil
  then show ?case by simp
next
  case (Cons tp topology)
  obtain k parts where tp: "tp = (k, parts)" by (cases tp)
  obtain use d1 c1 where l: "lookupTopic match order d k = (use, d1, c1)"
    by (cases "lookupTopic match order d k")
  from Cons.prems(2) tp have dist: "distinct (map fst topology)" and k: "k \<notin> fst ` set topology"
    by auto
  from k have none: "map_of topology k = None" by (simp add: map_of_eq_None_iff)
  have f: "fold (stageTopic match order) topology
             (d1, stagePartitions use (pinsOf d k) k parts toUse, calls @ c1) = (d', toUse', calls')"
    using Cons.prems(1) by (simp add: tp stageTopic_eq l)
  note IH = Cons.IH [OF f dist]
  show ?case
  proof (cases "T = k")
    case True
    with IH none l show ?thesis by (simp add: tp)
  next
    case False
    with IH lookupTopic_other_caches [OF l False] lookupTopic_caches(1,2) [OF l False]
    show ?thesis by (simp add: tp split: option.splits)
  qed
qed

lemma stage_fold_calls_uncached:
  assumes "fold (stageTopic match order) topology (d, toUse, calls) = (d', toUse', calls')"
    and "(pat, t) \<in> set calls'"
  shows "(pat, t) \<in> set calls \<or>
         (regexTopics d \<and> map_of (reTopics d) t = None \<and> t \<notin> set (reIgnore d))"
  using assms
proof (induction topology arbitrary: d toUse calls)
  case Nil
  then show ?case by simp
next
  case (Cons tp topology)
  obtain k parts where tp: "tp = (k, parts)" by (cases tp)
  obtain use d1 c1 where l: "lookupTopic match order d k = (use, d1, c1)"
    by (cases "lookupTopic match order d k")
  have f: "fold (stageTopic match order) topology
             (d1, stagePartitions use (pinsOf d k) k parts toUse, calls @ c1) = (d', toUse', calls')"
    using Cons.prems(1) by (simp add: tp stageTopic_eq l)
  from Cons.IH [OF f Cons.prems(2)]
  consider "(pat, t) \<in> set calls" | "(pat, t) \<in> set c1"
    | "regexTopics d1 \<and> map_of (reTopics d1) t = None \<and> t \<notin> set (reIgnore d1)"
    by auto
  then show ?case
  proof cases
    case 1
    then show ?thesis by simp
  next
    case 2
    then show ?thesis
      using lookupTopic_calls_uncached [of pat t match order d k] l by auto
  next
    case 3
    then show ?thesis
      using lookupTopic_unchanged(3) [OF l] lookupTopic_caches(3,4) [OF l, of t]
      by (cases "map_of (reTopics d) t") auto
  qed
qed

subsection \<open>Examples, evaluated\<close>

lemmas assign_eval = findNewAssignments_def stageTopic_def lookupTopic_def stagePartitions_def
  removeUsing_def addUsing_def pinsOf_def ConsumeTopics_def ConsumePartitions_def
  ConsumeTopicsRegex_def newDirectConsumer_def Let_def

lemma bothTopics_wf: "wf_directConsumer bothTopics"
  by (simp add: wf_directConsumer_def bothTopics_def ConsumeTopics_def newDirectConsumer_def)

lemma bothTopics_first:
  "reconcileAll [(noMatch, noOrder, [(''t'', [0, 1, 2])])] bothTopics
     = bothTopics\<lparr>usingSet := [(''t'', [2, 1, 0])]\<rparr>"
  by (simp add: assign_eval bothTopics_def)

lemma bothTopics_second:
  "findNewAssignments noMatch noOrder (bothTopics\<lparr>usingSet := [(''t'', [2, 1, 0])]\<rparr>)
      [(''t'', [0, 1]), (''u'', [0])]
     = (Some [(''t'', []), (''u'', [(0, 0)])],
        bothTopics\<lparr>usingSet := [(''t'', [2, 1, 0]), (''u'', [0])]\<rparr>, [])"
  by (simp add: assign_eval bothTopics_def)

subsection \<open>The claims about the using map and the nil delta\<close>

text \<open>
  Claim C6.  From any consumer that satisfies the invariants of the representation,
  after any sequence of earlier calls of \<open>findNewAssignments\<close> (any topologies, growing,
  shrinking or reappearing) and one more call: the using map after the earlier calls
  has every topic and partition it had at the start, the using map after the call has
  every topic and partition it had before the call, and no pair of topic and partition
  that was in the using map before the call is offered by the delta of the call.
\<close>

theorem usingSet_only_grows:
  assumes "wf_directConsumer d"
    and "findNewAssignments match order (reconcileAll earlier d) topology = (delta, d', calls)"
  shows "usingGrows d (reconcileAll earlier d) \<and> usingGrows (reconcileAll earlier d) d' \<and>
         usingPairs d \<subseteq> usingPairs (reconcileAll earlier d) \<and>
         usingPairs (reconcileAll earlier d) \<subseteq> usingPairs d' \<and>
         (\<forall>(topic, p) \<in> usingPairs (reconcileAll earlier d). offered delta topic p = None)"
proof -
  let ?d1 = "reconcileAll earlier d"
  have g1: "usingGrows d ?d1" by (rule reconcileAll_usingGrows)
  have g2: "usingGrows ?d1 d'" using assms(2) by (rule findNewAssignments_usingGrows)
  have "wf_directConsumer ?d1" using assms(1) by (rule reconcileAll_wf)
  then have dist: "distinct (map fst (usingSet ?d1))" by (simp add: wf_directConsumer_def)
  have "\<forall>(topic, p) \<in> usingPairs ?d1. offered delta topic p = None"
    using findNewAssignments_not_reoffered [OF assms(2) dist] by auto
  with g1 g2 usingGrows_pairs [OF g1] usingGrows_pairs [OF g2] show ?thesis by blast
qed



text \<open>
  Topic \<open>t\<close> is seen with partitions 0, 1, 2, then with partitions 0, 1 next to a new
  topic \<open>u\<close>: the using map keeps partition 2 of \<open>t\<close>, and the second delta offers only
  partition 0 of \<open>u\<close>.
\<close>

theorem usingSet_only_grows_witness:
  "wf_directConsumer bothTopics \<and>
   findNewAssignments noMatch noOrder
       (reconcileAll [(noMatch, noOrder, [(''t'', [0, 1, 2])])] bothTopics)
       [(''t'', [0, 1]), (''u'', [0])]
     = (Some [(''t'', []), (''u'', [(0, 0)])],
        bothTopics\<lparr>usingSet := [(''t'', [2, 1, 0]), (''u'', [0])]\<rparr>, []) \<and>
   (''t'', 2) \<in> usingPairs (bothTopics\<lparr>usingSet := [(''t'', [2, 1, 0])]\<rparr>) \<and>
   (''t'', 2) \<in> usingPairs (bothTopics\<lparr>usingSet := [(''t'', [2, 1, 0]), (''u'', [0])]\<rparr>) \<and>
   offered (Some [(''t'', []), (''u'', [(0, 0 :: nat)])]) ''t'' 2 = None \<and>
   offered (Some [(''t'', []), (''u'', [(0, 0 :: nat)])]) ''t'' 0 = None"
proof -
  have run: "findNewAssignments noMatch noOrder
       (reconcileAll [(noMatch, noOrder, [(''t'', [0, 1, 2])])] bothTopics)
       [(''t'', [0, 1]), (''u'', [0])]
     = (Some [(''t'', []), (''u'', [(0, 0)])],
        bothTopics\<lparr>usingSet := [(''t'', [2, 1, 0]), (''u'', [0])]\<rparr>, [])"
    by (simp only: bothTopics_first bothTopics_second)
  note grows = usingSet_only_grows [OF bothTopics_wf run]
  have in2: "(''t'', 2) \<in> usingPairs (bothTopics\<lparr>usingSet := [(''t'', [2, 1, 0])]\<rparr>)"
    and in0: "(''t'', 0) \<in> usingPairs (bothTopics\<lparr>usingSet := [(''t'', [2, 1, 0])]\<rparr>)"
    by (simp_all add: usingPairs_def)
  from grows [unfolded bothTopics_first] in2 in0 bothTopics_wf run
  show ?thesis by blast
qed

text \<open>
  Claim C7 at the failing input.  A consumer that wants topic \<open>t\<close> and has nothing in
  use is given a topology in which \<open>t\<close> has no partition loaded.  No partition is
  staged, yet the result is not nil: it is the map with the one entry \<open>t\<close> and no
  partition, and the call adds the entry \<open>t\<close> to the using map.
\<close>

theorem findNewAssignments_empty_topic_not_nil:
  "findNewAssignments noMatch noOrder bothTopics [(''t'', [])]
     = (Some [(''t'', [])], bothTopics\<lparr>usingSet := [(''t'', [])]\<rparr>, [])"
  by (simp add: assign_eval bothTopics_def)


text \<open>
  Claim C5 at the failing input.  Topic \<open>t\<close> is first seen with partitions 0, 1, 2; then
  the topology has \<open>t\<close> with partitions 0, 1 and a new topic \<open>u\<close> with partition 0.  The
  call with this topology returns a delta that offers partition 0 of \<open>u\<close>; the call that
  follows, with the same topology, does not return nil but the map with the entry
  \<open>t\<close> and no partition.
\<close>

theorem findNewAssignments_repeat_not_nil:
  "findNewAssignments noMatch noOrder
       (reconcileAll [(noMatch, noOrder, [(''t'', [0, 1, 2])])] bothTopics)
       [(''t'', [0, 1]), (''u'', [0])]
     = (Some [(''t'', []), (''u'', [(0, 0)])],
        bothTopics\<lparr>usingSet := [(''t'', [2, 1, 0]), (''u'', [0])]\<rparr>, []) \<and>
   findNewAssignments noMatch noOrder
       (bothTopics\<lparr>usingSet := [(''t'', [2, 1, 0]), (''u'', [0])]\<rparr>)
       [(''t'', [0, 1]), (''u'', [0])]
     = (Some [(''t'', [])],
        bothTopics\<lparr>usingSet := [(''t'', [2, 1, 0]), (''u'', [0])]\<rparr>, [])"
proof -
  have "findNewAssignments noMatch noOrder
       (bothTopics\<lparr>usingSet := [(''t'', [2, 1, 0]), (''u'', [0])]\<rparr>)
       [(''t'', [0, 1]), (''u'', [0])]
     = (Some [(''t'', [])],
        bothTopics\<lparr>usingSet := [(''t'', [2, 1, 0]), (''u'', [0])]\<rparr>, [])"
    by (simp add: assign_eval bothTopics_def)
  then show ?thesis by (simp only: bothTopics_first bothTopics_second)
qed

subsection \<open>Pin precedence\<close>




















subsection \<open>Regex mode: first match and memoization\<close>

lemma findNewAssignments_caches:
  assumes "findNewAssignments match order d topology = (delta, d', calls)"
  obtains d1 staged where
    "fold (stageTopic match order) topology (d, [], []) = (d1, staged, calls)"
    "reTopics d' = reTopics d1" "reIgnore d' = reIgnore d1"
proof -
  from assms obtain d1 staged where
    f: "fold (stageTopic match order) topology (d, [], []) = (d1, staged, calls)" and
    alt: "removeUsing (usingSet d) staged = [] \<and> delta = None \<and> d' = d1 \<or>
     removeUsing (usingSet d) staged \<noteq> [] \<and> delta = Some (removeUsing (usingSet d) staged) \<and>
       d' = d1\<lparr>usingSet := addUsing (removeUsing (usingSet d) staged) (usingSet d)\<rparr>"
    by (rule findNewAssignments_cases)
  from alt have "reTopics d' = reTopics d1" "reIgnore d' = reIgnore d1" by auto
  with f show ?thesis using that by blast
qed

lemma findNewAssignments_memo_kept:
  assumes "findNewAssignments match order d topology = (delta, d', calls)"
  shows "map_of (reTopics d) t = Some off \<Longrightarrow> map_of (reTopics d') t = Some off"
    and "t \<in> set (reIgnore d) \<Longrightarrow> t \<in> set (reIgnore d')"
proof -
  from assms obtain d1 staged where
    f: "fold (stageTopic match order) topology (d, [], []) = (d1, staged, calls)" and
    c: "reTopics d' = reTopics d1" "reIgnore d' = reIgnore d1"
    by (rule findNewAssignments_caches)
  show "map_of (reTopics d) t = Some off \<Longrightarrow> map_of (reTopics d') t = Some off"
    using stage_fold_unchanged [OF f] c by simp
  show "t \<in> set (reIgnore d) \<Longrightarrow> t \<in> set (reIgnore d')"
    using stage_fold_unchanged [OF f] c by simp
qed

lemma reconcileAll_memo_kept:
  "map_of (reTopics d) t = Some off \<or> t \<in> set (reIgnore d) \<Longrightarrow>
   map_of (reTopics (reconcileAll cs d)) t = Some off \<or> t \<in> set (reIgnore (reconcileAll cs d))"
proof (induction cs arbitrary: d)
  case Nil
  then show ?case by simp
next
  case (Cons c cs)
  obtain match order topology where c: "c = (match, order, topology)" by (cases c)
  obtain delta d' tr where f: "findNewAssignments match order d topology = (delta, d', tr)"
    by (cases "findNewAssignments match order d topology")
  have "map_of (reTopics d') t = Some off \<or> t \<in> set (reIgnore d')"
    using Cons.prems findNewAssignments_memo_kept [OF f] by blast
  then show ?case by (simp add: c f Cons.IH)
qed

lemma findNewAssignments_calls_fresh:
  assumes "findNewAssignments match order d topology = (delta, d', calls)"
    and "(pat, t) \<in> set calls"
  shows "map_of (reTopics d) t = None \<and> t \<notin> set (reIgnore d)"
proof -
  from assms(1) obtain d1 staged where
    f: "fold (stageTopic match order) topology (d, [], []) = (d1, staged, calls)"
    by (rule findNewAssignments_caches)
  from stage_fold_calls_uncached [OF f assms(2)] show ?thesis by simp
qed

lemma regex_eval:
  "findNewAssignments exampleMatch orderSwapped regexConsumer [(''ab'', [0]), (''zz'', [0])]
     = (Some [(''ab'', [(0, 0)])],
        regexConsumer\<lparr>reTopics := [(''ab'', 0)], reIgnore := [''zz''],
                       usingSet := [(''ab'', [0])]\<rparr>,
        [(''.*b'', ''ab''), (''.*b'', ''zz''), (''a.*'', ''zz'')])"
  "findNewAssignments exampleMatch orderSwapped
       (regexConsumer\<lparr>reTopics := [(''ab'', 0)], reIgnore := [''zz''],
                       usingSet := [(''ab'', [0])]\<rparr>)
       [(''ab'', [0]), (''zz'', [0])]
     = (None,
        regexConsumer\<lparr>reTopics := [(''ab'', 0)], reIgnore := [''zz''],
                       usingSet := [(''ab'', [0])]\<rparr>, [])"
  by (simp_all add: assign_eval regexConsumer_def exampleMatch_def orderSwapped_def)


text \<open>
  Claim C4, as amended.  In regex mode, for a topic \<open>T\<close> of the topology that is in
  neither memo cache, \<open>findNewAssignments\<close> tests \<open>T\<close> against the configured patterns in
  the order in which the \<open>range\<close> over \<open>d.topics\<close> visits them (\<open>order T\<close>, which Go
  leaves unspecified): the calls of the matcher for \<open>T\<close> are the entries of that order
  up to and including the first that matches.  The topic is wanted at the offset of
  that first match, which is a configured pattern with its configured offset, and the
  outcome is memoized: the offset in \<open>reTopics\<close> on a match, the name in \<open>reIgnore\<close> when
  no configured pattern matches.  In every later call of \<open>findNewAssignments\<close>, after
  any calls in between and with any topology, matcher and order, \<open>T\<close> is not tested
  again.
\<close>

theorem regex_first_match_memoized:
  assumes regex: "regexTopics d"
    and range: "rangeOf (topics d) (order T)"
    and topo: "distinct (map fst topology)" "map_of topology T = Some parts"
    and fresh: "map_of (reTopics d) T = None" "T \<notin> set (reIgnore d)"
    and res: "findNewAssignments match order d topology = (delta, d', calls)"
    and later: "findNewAssignments match' order' (reconcileAll between d') topology'
                  = (delta', d'', calls')"
  shows "filter (\<lambda>(pat, t). t = T) calls
           = map (\<lambda>(pat, off). (pat, T))
               (takeWhile (\<lambda>(pat, off). \<not> match pat T) (order T) @
                take 1 (dropWhile (\<lambda>(pat, off). \<not> match pat T) (order T))) \<and>
         fst (lookupTopic match order d T)
           = map_option snd (find (\<lambda>(pat, off). match pat T) (order T)) \<and>
         map_of (reTopics d') T
           = map_option snd (find (\<lambda>(pat, off). match pat T) (order T)) \<and>
         (T \<in> set (reIgnore d') \<longleftrightarrow> find (\<lambda>(pat, off). match pat T) (order T) = None) \<and>
         (\<forall>pat off. find (\<lambda>(pat, off). match pat T) (order T) = Some (pat, off) \<longrightarrow>
            (pat, off) \<in> set (topics d) \<and> match pat T) \<and>
         (find (\<lambda>(pat, off). match pat T) (order T) = None \<longleftrightarrow>
            (\<forall>(pat, off) \<in> set (topics d). \<not> match pat T)) \<and>
         (\<forall>(pat, t) \<in> set calls'. t \<noteq> T)"
proof -
  let ?found = "find (\<lambda>(pat, off). match pat T) (order T)"
  from res obtain d1 staged where
    f: "fold (stageTopic match order) topology (d, [], []) = (d1, staged, calls)" and
    c: "reTopics d' = reTopics d1" "reIgnore d' = reIgnore d1"
    by (rule findNewAssignments_caches)
  note lu = lookupTopic_uncached [OF regex fresh, of match order]
  have c1: "filter (\<lambda>(pat, t). t = T) calls
           = map (\<lambda>(pat, off). (pat, T))
               (takeWhile (\<lambda>(pat, off). \<not> match pat T) (order T) @
                take 1 (dropWhile (\<lambda>(pat, off). \<not> match pat T) (order T)))"
    using stage_fold_calls [OF f topo(1), of T] topo(2) lu(2)
    by (simp add: matchTopics_calls)
  have c2: "fst (lookupTopic match order d T) = map_option snd ?found"
    using lu(1) by (simp add: matchTopics_found)
  have c3: "map_of (reTopics d') T = map_option snd ?found"
    using stage_fold_caches [OF f topo(1), of T] topo(2) lu(3) c(1)
    by (simp add: matchTopics_found)
  have c4: "T \<in> set (reIgnore d') \<longleftrightarrow> ?found = None"
    using stage_fold_caches [OF f topo(1), of T] topo(2) lu(4) c(2)
    by (simp add: matchTopics_found)
  have c5: "\<forall>pat off. ?found = Some (pat, off) \<longrightarrow> (pat, off) \<in> set (topics d) \<and> match pat T"
  proof (intro allI impI)
    fix pat off
    assume "?found = Some (pat, off)"
    then have "(pat, off) \<in> set (order T)" "match pat T"
      by (auto simp: find_Some_iff dest: nth_mem)
    with range show "(pat, off) \<in> set (topics d) \<and> match pat T"
      by (simp add: rangeOf_def)
  qed
  have c6: "?found = None \<longleftrightarrow> (\<forall>(pat, off) \<in> set (topics d). \<not> match pat T)"
    using range by (auto simp: find_None_iff rangeOf_def)
  have "\<exists>off. map_of (reTopics d') T = Some off \<or> T \<in> set (reIgnore d')"
    using c3 c4 by (cases ?found) auto
  then obtain off where "map_of (reTopics d') T = Some off \<or> T \<in> set (reIgnore d')"
    by blast
  then have kept: "map_of (reTopics (reconcileAll between d')) T = Some off \<or>
                   T \<in> set (reIgnore (reconcileAll between d'))"
    by (rule reconcileAll_memo_kept)
  have c7: "\<forall>(pat, t) \<in> set calls'. t \<noteq> T"
  proof (intro ballI, clarify)
    fix pat
    assume "(pat, T) \<in> set calls'"
    from findNewAssignments_calls_fresh [OF later this] kept show False by auto
  qed
  from c1 c2 c3 c4 c5 c6 c7 show ?thesis by blast
qed



text \<open>
  The patterns \<open>a.*\<close> and \<open>.*b\<close>, visited with \<open>.*b\<close> first, and the topics \<open>ab\<close> and \<open>zz\<close>:
  \<open>ab\<close> is tested against \<open>.*b\<close> alone and memoized in \<open>reTopics\<close>, \<open>zz\<close> is tested against
  both and memoized in \<open>reIgnore\<close>, and the next call makes no test.
\<close>

theorem regex_first_match_memoized_witness:
  "regexTopics regexConsumer \<and>
   rangeOf (topics regexConsumer) (orderSwapped ''ab'') \<and>
   map_of (reTopics regexConsumer) ''ab'' = None \<and> ''ab'' \<notin> set (reIgnore regexConsumer) \<and>
   filter (\<lambda>(pat, t). t = ''ab'') [(''.*b'', ''ab''), (''.*b'', ''zz''), (''a.*'', ''zz'')]
     = [(''.*b'', ''ab'')] \<and>
   find (\<lambda>(pat, off). exampleMatch pat ''ab'') (orderSwapped ''ab'') = Some (''.*b'', 0) \<and>
   fst (lookupTopic exampleMatch orderSwapped regexConsumer ''ab'') = Some 0 \<and>
   (''.*b'', 0) \<in> set (topics regexConsumer) \<and>
   find (\<lambda>(pat, off). exampleMatch pat ''zz'') (orderSwapped ''zz'') = None \<and>
   findNewAssignments exampleMatch orderSwapped
       (reconcileAll [] (regexConsumer\<lparr>reTopics := [(''ab'', 0)], reIgnore := [''zz''],
                       usingSet := [(''ab'', [0])]\<rparr>))
       [(''ab'', [0]), (''zz'', [0])]
     = (None,
        regexConsumer\<lparr>reTopics := [(''ab'', 0)], reIgnore := [''zz''],
                       usingSet := [(''ab'', [0])]\<rparr>, [])"
proof -
  let ?topology = "[(''ab'', [0]), (''zz'', [0])] :: (string, partition list) gomap"
  let ?d' = "regexConsumer\<lparr>reTopics := [(''ab'', 0)], reIgnore := [''zz''],
                       usingSet := [(''ab'', [0])]\<rparr>"
  have regex: "regexTopics regexConsumer"
    by (simp add: regexConsumer_def ConsumeTopicsRegex_def)
  have tp: "topics regexConsumer = [(''a.*'', 0), (''.*b'', 0)]"
    by (simp add: regexConsumer_def ConsumeTopicsRegex_def ConsumeTopics_def newDirectConsumer_def)
  have range: "rangeOf (topics regexConsumer) (orderSwapped T)" for T
    by (auto simp: rangeOf_def tp orderSwapped_def)
  have topo: "distinct (map fst ?topology)"
    "map_of ?topology ''ab'' = Some [0]" "map_of ?topology ''zz'' = Some [0]"
    by simp_all
  have fresh: "map_of (reTopics regexConsumer) T = None" "T \<notin> set (reIgnore regexConsumer)" for T
    by (simp_all add: regexConsumer_def ConsumeTopicsRegex_def ConsumeTopics_def
        newDirectConsumer_def)
  have later: "findNewAssignments exampleMatch orderSwapped (reconcileAll [] ?d') ?topology
                 = (None, ?d', [])"
    using regex_eval(2) by simp
  note ab = regex_first_match_memoized [OF regex range topo(1) topo(2) fresh regex_eval(1) later]
  note zz = regex_first_match_memoized [OF regex range topo(1) topo(3) fresh regex_eval(1) later]
  have fab: "find (\<lambda>(pat, off). exampleMatch pat ''ab'') (orderSwapped ''ab'') = Some (''.*b'', 0)"
    by (simp add: orderSwapped_def exampleMatch_def)
  have fzz: "find (\<lambda>(pat, off). exampleMatch pat ''zz'') (orderSwapped ''zz'') = None"
    by (simp add: orderSwapped_def exampleMatch_def)
  have calls: "filter (\<lambda>(pat, t). t = ''ab'') [(''.*b'', ''ab''), (''.*b'', ''zz''), (''a.*'', ''zz'')]
     = [(''.*b'', ''ab'')]"
    by simp
  have use: "fst (lookupTopic exampleMatch orderSwapped regexConsumer ''ab'') = Some 0"
    using ab fab by simp
  have conf: "(''.*b'', 0) \<in> set (topics regexConsumer)"
    using ab fab by blast
  from regex range [of "''ab''"] fresh [of "''ab''"] calls fab use conf fzz later
  show ?thesis by blast
qed


text \<open>
  Claim C4 as stated fails on the order.  The patterns are declared as \<open>a.*\<close>, \<open>.*b\<close> and
  stored in a map; a \<open>range\<close> over it may visit \<open>.*b\<close> first.  Then the topic \<open>ab\<close>, which
  the first declared pattern matches, is tested against \<open>.*b\<close> only, and where the two
  patterns have different offsets it is staged at the offset of \<open>.*b\<close>, not at that of
  the first declared pattern that matches.
\<close>

theorem regex_tests_not_in_declared_order:
  "topics regexConsumer = [(''a.*'', 0), (''.*b'', 0)] \<and>
   rangeOf (topics regexConsumer) (orderSwapped ''ab'') \<and>
   exampleMatch ''a.*'' ''ab'' \<and>
   snd (snd (findNewAssignments exampleMatch orderSwapped regexConsumer [(''ab'', [0])]))
     = [(''.*b'', ''ab'')] \<and>
   rangeOf (topics twoOffsets) (orderSwapped' ''ab'') \<and>
   fst (findNewAssignments exampleMatch orderSwapped' twoOffsets [(''ab'', [0])])
     = Some [(''ab'', [(0, 1)])]"
  by (simp add: assign_eval regexConsumer_def twoOffsets_def exampleMatch_def orderSwapped_def
      orderSwapped'_def rangeOf_def insert_commute)

end
